theory Spec2Isabelle
  imports Main
begin

section \<open>Strings\<close>

text \<open>
  A JavaScript string is modelled as a \<^typ>\<open>string\<close>, one \<^typ>\<open>char\<close> per UTF-16 code
  unit; the model covers the code units below 256. \<open>String.prototype.trim\<close> removes
  white space and line terminators from both ends; below 256 these are the code units
  9 to 13, 32 and 160.
\<close>

definition isWhiteSpace :: "char \<Rightarrow> bool" where
  "isWhiteSpace c \<longleftrightarrow>
     c \<in> {CHR 0x09, CHR 0x0A, CHR 0x0B, CHR 0x0C, CHR 0x0D, CHR 0x20, CHR 0xA0}"

definition trim :: "string \<Rightarrow> string" where
  "trim s = rev (dropWhile isWhiteSpace (rev (dropWhile isWhiteSpace s)))"

text \<open>\<open>s.substr(0, n)\<close>: the first \<open>n\<close> code units, none when \<open>n\<close> is negative.\<close>

definition substr0 :: "string \<Rightarrow> int \<Rightarrow> string" where
  "substr0 s n = take (nat n) s"

text \<open>\<open>s.lastIndexOf(c)\<close> for a one-character needle: the last position of \<open>c\<close>, or \<open>-1\<close>.\<close>

definition lastIndexOf :: "string \<Rightarrow> char \<Rightarrow> int" where
  "lastIndexOf s c =
     (if c \<in> set s
      then int (length s) - 1 - int (length (takeWhile (\<lambda>x. x \<noteq> c) (rev s)))
      else - 1)"

section \<open>getTextFromHtml\<close>

text \<open>
  The regular expression \<open>/<(?:.|\n)*?>/gm\<close>: a match starts at a \<open><\<close> and runs, lazily,
  to the first \<open>>\<close> after it. The characters between are matched by \<open>.|\n\<close>, which is every
  code unit below 256 except the carriage return; so a carriage return before the first
  \<open>>\<close> makes the match at this \<open><\<close> fail. \<open>closeTag cs\<close> is the text after the match when
  \<open>cs\<close> is the text after the \<open><\<close>.
\<close>

fun closeTag :: "string \<Rightarrow> string option" where
  "closeTag [] = None"
| "closeTag (c # cs) =
     (if c = CHR ''>'' then Some cs
      else if c = CHR 0x0D then None
      else closeTag cs)"

text \<open>The global replace by the empty string: scanning resumes after each match.\<close>

function stripTags :: "string \<Rightarrow> string" where
  "stripTags [] = []"
| "stripTags (c # cs) =
     (if c = CHR ''<''
      then (case closeTag cs of Some r \<Rightarrow> stripTags r | None \<Rightarrow> c # stripTags cs)
      else c # stripTags cs)"
  by pat_completeness auto
termination
proof (relation "measure length")
  show "wf (measure length)" by simp
next
  fix c :: char and cs r :: string
  assume "closeTag cs = Some r"
  then have "length r < Suc (length cs)"
    by (induction cs) (auto split: if_splits)
  then show "(r, c # cs) \<in> measure length" by simp
qed simp_all

definition getTextFromHtml :: "string \<Rightarrow> string" where
  "getTextFromHtml str = trim (stripTags str)"

section \<open>trimTillLastSentence\<close>

text \<open>
  The parameter \<open>length\<close> of the source is \<open>len\<close> here, an integer. The two returns of
  the sentence cut and of the word cut are the same expression of the source, with
  \<open>separator\<close> set to \<open>"."\<close> or to \<open>" "\<close>.
\<close>

definition cutAt :: "string \<Rightarrow> char \<Rightarrow> string" where
  "cutAt trimmedString separator =
     trim (substr0 trimmedString
             (min (int (length trimmedString) - 1) (lastIndexOf trimmedString separator)))"

definition trimTillLastSentence :: "string \<Rightarrow> int \<Rightarrow> string" where
  "trimTillLastSentence str len =
     (let s = getTextFromHtml str in
      if len = 0 \<or> s = [] then s
      else
        let s' = s @ '' '';
            trimmedString = substr0 s' (len + 1)
        in if lastIndexOf trimmedString CHR ''.'' = - 1
           then if lastIndexOf trimmedString CHR '' '' = - 1
                then substr0 s' len
                else cutAt trimmedString CHR '' ''
           else cutAt trimmedString CHR ''.'')"

section \<open>Objects\<close>

text \<open>
  The values stored in a descriptor are strings and nested objects. An object is the list
  of its own properties in the order in which JavaScript enumerates them; its keys are
  distinct. The model does not cover arrays inside descriptors, nor keys that are array
  indices (which JavaScript enumerates before the other keys).
\<close>

datatype jsval = JStr string | JObj "(string \<times> jsval) list"

type_synonym obj = "(string \<times> jsval) list"

definition get :: "obj \<Rightarrow> string \<Rightarrow> jsval option" where
  "get ob k = map_of ob k"

text \<open>\<open>ob[k] = v\<close>: an existing property keeps its place, a new one comes last.\<close>

fun assign :: "obj \<Rightarrow> string \<Rightarrow> jsval \<Rightarrow> obj" where
  "assign [] k v = [(k, v)]"
| "assign ((k', v') # ps) k v =
     (if k' = k then (k, v) # ps else (k', v') # assign ps k v)"

text \<open>Truthiness of \<open>ob[k]\<close>: a missing property and the empty string are falsy.\<close>

fun truthy :: "jsval option \<Rightarrow> bool" where
  "truthy None = False"
| "truthy (Some (JStr s)) = (s \<noteq> [])"
| "truthy (Some (JObj ps)) = True"

text \<open>
  \<open>_.isEqual\<close>: strings are equal when they are the same string, objects when they have
  the same keys with equal values, in any order.
\<close>

function isEqual :: "jsval \<Rightarrow> jsval \<Rightarrow> bool" where
  "isEqual (JStr a) (JStr b) = (a = b)"
| "isEqual (JObj ps) (JObj qs) =
     list_all (\<lambda>k. case (map_of ps k, map_of qs k) of
                    (Some v, Some w) \<Rightarrow> isEqual v w
                  | _ \<Rightarrow> False)
       (map fst ps @ map fst qs)"
| "isEqual (JStr a) (JObj qs) = False"
| "isEqual (JObj ps) (JStr b) = False"
  by pat_completeness auto
termination
proof (relation "measure (\<lambda>(a, b). size a)")
  show "wf (measure (\<lambda>(a, b). size a))" by simp
next
  fix ps qs :: "(string \<times> jsval) list" and k x y v w
  assume "(x, y) = (map_of ps k, map_of qs k)" "x = Some v"
  then have "(k, v) \<in> set ps" by (simp add: map_of_SomeD)
  then have "size v < size (JObj ps)"
    by (induction ps) auto
  then show "((v, w), JObj ps, JObj qs) \<in> measure (\<lambda>(a, b). size a)" by simp
qed

text \<open>
  The predicate that \<open>_.find(source, {[k]: v})\<close> builds with \<open>_.matches\<close>: a string \<open>v\<close> is
  compared with \<open>===\<close>, an object \<open>v\<close> by a partial deep comparison (every property of \<open>v\<close>
  is matched by the property of the same key). \<open>isMatch w v\<close> compares the value \<open>w\<close> found
  in the candidate with \<open>v\<close>.
\<close>

fun isMatch :: "jsval \<Rightarrow> jsval \<Rightarrow> bool" where
  "isMatch (JStr a) (JStr b) = (a = b)"
| "isMatch (JObj qs) (JObj ps) =
     list_all (\<lambda>(k, v). case map_of qs k of None \<Rightarrow> False | Some w \<Rightarrow> isMatch w v) ps"
| "isMatch _ _ = False"

definition matchesProperty :: "string \<Rightarrow> jsval option \<Rightarrow> obj \<Rightarrow> bool" where
  "matchesProperty k v ob =
     (case (get ob k, v) of (Some w, Some v') \<Rightarrow> isMatch w v' | _ \<Rightarrow> False)"

section \<open>Paths of \<open>_.set\<close>\<close>

text \<open>
  \<open>_.set(ob, key, value)\<close> takes \<open>key\<close> as the name of one property when it has no full stop
  or when \<open>ob\<close> already has a property of that name; otherwise it splits \<open>key\<close> at the full
  stops and walks the path, replacing whatever is not an object on the way by a new
  object. The model is exact for the keys without \<open>[\<close> and \<open>]\<close> whose path components
  after the first are not array indices (before these lodash creates arrays) and are none
  of \<open>__proto__\<close>, \<open>constructor\<close> and \<open>prototype\<close> (which later versions of lodash refuse to
  assign); \<open>modelledKey\<close> below is this condition, and the theorems about \<open>_.set\<close> carry
  it or the stronger \<open>simpleKey\<close>.
\<close>

fun splitAt :: "char \<Rightarrow> string \<Rightarrow> string \<Rightarrow> string list" where
  "splitAt sep acc [] = [rev acc]"
| "splitAt sep acc (c # cs) =
     (if c = sep then rev acc # splitAt sep [] cs else splitAt sep (c # acc) cs)"

definition stringToPath :: "string \<Rightarrow> string list" where
  "stringToPath key = splitAt CHR ''.'' [] key"

definition isKey :: "string \<Rightarrow> obj \<Rightarrow> bool" where
  "isKey key ob \<longleftrightarrow> CHR ''.'' \<notin> set key \<or> key \<in> set (map fst ob)"

definition castPath :: "string \<Rightarrow> obj \<Rightarrow> string list" where
  "castPath key ob = (if isKey key ob then [key] else stringToPath key)"

fun baseSet :: "obj \<Rightarrow> string list \<Rightarrow> jsval \<Rightarrow> obj" where
  "baseSet ob [] v = ob"
| "baseSet ob [k] v = assign ob k v"
| "baseSet ob (k # k' # ks) v =
     assign ob k
       (JObj (baseSet (case get ob k of Some (JObj ps) \<Rightarrow> ps | _ \<Rightarrow> []) (k' # ks) v))"

definition lodash_set :: "obj \<Rightarrow> string \<Rightarrow> jsval \<Rightarrow> obj" where
  "lodash_set ob key v = baseSet ob (castPath key ob) v"

section \<open>The working list and the store\<close>

text \<open>
  \<open>generatedSchema\<close> holds objects of two kinds. The descriptors that \<open>generateMeta\<close>
  creates are referred to from this list only: \<open>Own ob\<close> keeps such an object by value,
  and a mutation replaces it in the list. A custom entry that \<open>addUpdateMeta\<close> pushes is an
  object of the caller or of the configuration, which the array of custom entries (and
  possibly the list, several times) refers to: \<open>Shared r\<close> is its address in the store,
  and a mutation updates the store.

  Values nested inside an object are kept by value. In JavaScript \<open>_.set\<close> stores a nested
  object of the entry by reference, and a later key with a full stop writes into that
  object, which changes the entry too; the model does not follow this. It is exact when
  the keys of the custom entries are \<open>simpleKey\<close>s, for then no nested object is ever
  written; the theorems about the objects that \<open>addUpdateMeta\<close> changes carry this
  condition.
\<close>

type_synonym ref = nat

type_synonym store = "ref \<Rightarrow> obj"

datatype elem = Own obj | Shared ref

fun deref :: "store \<Rightarrow> elem \<Rightarrow> obj" where
  "deref h (Own ob) = ob"
| "deref h (Shared r) = h r"

text \<open>
  Writing the object found at position \<open>i\<close> of the list; \<open>i\<close> is a position that
  \<open>findIndex\<close> returned, so it is within the list.
\<close>

definition mutate :: "store \<times> elem list \<Rightarrow> nat \<Rightarrow> (obj \<Rightarrow> obj) \<Rightarrow> store \<times> elem list" where
  "mutate st i f =
     (case st of (h, source) \<Rightarrow>
        (case source ! i of
           Own ob \<Rightarrow> (h, source[i := Own (f ob)])
         | Shared r \<Rightarrow> (h(r := f (h r)), source)))"

text \<open>\<open>_.find\<close> returns the first match; the model returns its position.\<close>

fun findIndex :: "('a \<Rightarrow> bool) \<Rightarrow> 'a list \<Rightarrow> nat option" where
  "findIndex P [] = None"
| "findIndex P (x # xs) = (if P x then Some 0 else map_option Suc (findIndex P xs))"

section \<open>getMetaKey and addUpdateMeta\<close>

definition metaKeys :: "string list" where
  "metaKeys = [''name'', ''itemProp'', ''property'']"

text \<open>The loop keeps the first key of \<open>metaKeys\<close> whose value in \<open>meta\<close> is truthy.\<close>

definition getMetaKey :: "obj \<Rightarrow> string option" where
  "getMetaKey meta =
     foldl (\<lambda>selectedMetaKey key.
              if selectedMetaKey = None \<and> truthy (get meta key) then Some key
              else selectedMetaKey)
       None metaKeys"

text \<open>
  One step of \<open>_.each(meta, (value, key) => _.set(generatedSchemaObj, key, value))\<close>, for
  the entry at address \<open>m\<close> and the object at position \<open>i\<close> of the list. The keys are those
  \<open>meta\<close> had before the loop; the value is read when the step runs, which matters when
  the object found is the entry itself. A key is never removed, so the value is there.
\<close>

definition setField :: "ref \<Rightarrow> nat \<Rightarrow> store \<times> elem list \<Rightarrow> string \<Rightarrow> store \<times> elem list" where
  "setField m i st key =
     (case get (fst st m) key of
        None \<Rightarrow> st
      | Some v \<Rightarrow> mutate st i (\<lambda>generatedSchemaObj. lodash_set generatedSchemaObj key v))"

text \<open>The body of the loop of \<open>addUpdateMeta\<close> for the custom entry at address \<open>m\<close>.\<close>

definition addUpdateMeta1 :: "store \<times> elem list \<Rightarrow> ref \<Rightarrow> store \<times> elem list" where
  "addUpdateMeta1 st m =
     (case st of (h, source) \<Rightarrow>
        (let meta = h m in
         case getMetaKey meta of
           None \<Rightarrow> (h, source @ [Shared m])
         | Some metaKey \<Rightarrow>
             (case findIndex (\<lambda>e. matchesProperty metaKey (get meta metaKey) (deref h e)) source of
                None \<Rightarrow> (h, source @ [Shared m])
              | Some i \<Rightarrow> foldl (setField m i) (h, source) (map fst meta))))"

definition addUpdateMeta :: "store \<times> elem list \<Rightarrow> ref list \<Rightarrow> store \<times> elem list" where
  "addUpdateMeta st customMetas = foldl addUpdateMeta1 st customMetas"


text \<open>A store for the examples: every address holds the empty object.\<close>

definition h0 :: store where
  "h0 = (\<lambda>_. [])"

section \<open>SEO data\<close>

text \<open>
  The fields of an SEO object have the types the source expects of them: strings, a
  string or an array of strings for \<open>keywords\<close>, arrays of strings, and for
  \<open>type_details\<close> a mapping (in iteration order) whose values are strings or mappings of
  strings. \<open>meta\<close> is an array of custom entries, each the address of an object.
\<close>

datatype keywords_value = KString string | KArray "string list"

datatype detail = Leaf string | Group "(string \<times> string) list"

record twitter =
  site :: "string option"
  creator :: "string option"

record facebook =
  admins :: "string list option"

text \<open>
  An SEO object as the caller or the configuration gives it: \<open>None\<close> is a key that is
  missing (or \<open>undefined\<close>).
\<close>

record seo_input =
  in_title :: "string option"
  in_description :: "string option"
  in_keywords :: "keywords_value option"
  in_image :: "string option"
  in_site_name :: "string option"
  in_twitter :: "twitter option"
  in_facebook :: "facebook option"
  in_type :: "string option"
  in_type_details :: "(string \<times> detail) list option"
  in_url :: "string option"
  in_meta :: "ref list option"

text \<open>
  An SEO object after \<open>_.defaults\<close> with a source that defines every key of the schema:
  these keys are defined, \<open>url\<close> and \<open>meta\<close> may still be missing.
\<close>

record seoData =
  title :: string
  description :: string
  keywords' :: keywords_value
  image :: string
  site_name :: string
  twitter :: twitter
  facebook :: facebook
  type :: string
  type_details :: "(string \<times> detail) list"
  url :: "string option"
  meta :: "ref list option"

text \<open>
  \<open>_.defaults(ob, src)\<close> assigns to \<open>ob\<close> the value of \<open>src\<close> at every key that is
  \<open>undefined\<close> in \<open>ob\<close>, and returns \<open>ob\<close>: the result is the state of the object \<open>ob\<close>
  after the call.
\<close>

definition defaults :: "seo_input \<Rightarrow> seoData \<Rightarrow> seoData" where
  "defaults ob src =
     \<lparr> title = (case in_title ob of None \<Rightarrow> title src | Some v \<Rightarrow> v),
       description = (case in_description ob of None \<Rightarrow> description src | Some v \<Rightarrow> v),
       keywords' = (case in_keywords ob of None \<Rightarrow> keywords' src | Some v \<Rightarrow> v),
       image = (case in_image ob of None \<Rightarrow> image src | Some v \<Rightarrow> v),
       site_name = (case in_site_name ob of None \<Rightarrow> site_name src | Some v \<Rightarrow> v),
       twitter = (case in_twitter ob of None \<Rightarrow> twitter src | Some v \<Rightarrow> v),
       facebook = (case in_facebook ob of None \<Rightarrow> facebook src | Some v \<Rightarrow> v),
       type = (case in_type ob of None \<Rightarrow> type src | Some v \<Rightarrow> v),
       type_details = (case in_type_details ob of None \<Rightarrow> type_details src | Some v \<Rightarrow> v),
       url = (case in_url ob of None \<Rightarrow> url src | Some v \<Rightarrow> Some v),
       meta = (case in_meta ob of None \<Rightarrow> meta src | Some v \<Rightarrow> Some v) \<rparr>"

text \<open>The key/value mappings of an object after \<open>_.defaults\<close>, as those of an input.\<close>

definition asInput :: "seoData \<Rightarrow> seo_input" where
  "asInput d =
     \<lparr> in_title = Some (title d), in_description = Some (description d),
       in_keywords = Some (keywords' d), in_image = Some (image d),
       in_site_name = Some (site_name d), in_twitter = Some (twitter d),
       in_facebook = Some (facebook d), in_type = Some (type d),
       in_type_details = Some (type_details d), in_url = url d, in_meta = meta d \<rparr>"

definition emptyInput :: seo_input where
  "emptyInput =
     \<lparr> in_title = None, in_description = None, in_keywords = None, in_image = None,
       in_site_name = None, in_twitter = None, in_facebook = None, in_type = None,
       in_type_details = None, in_url = None, in_meta = None \<rparr>"

section \<open>Configuration, options and execution environment\<close>

text \<open>The configuration object: its key \<open>seo\<close>, when there is one.\<close>

record config =
  seo :: "seo_input option"

record options =
  baseUrl :: string
  opt_url :: "string option"

text \<open>
  \<open>isBrowser()\<close>, and \<open>window.location.href\<close> (\<open>None\<close> when \<open>_.get\<close> finds nothing there).
\<close>

record environment =
  isBrowser :: bool
  location_href :: "string option"

text \<open>
  \<open>seoSchema\<close> is computed once, when the module is loaded: the configuration's \<open>seo\<close>
  object (a new empty object when there is none) with the defaults of the source.
\<close>

definition schemaDefaults :: seoData where
  "schemaDefaults =
     \<lparr> title = '''', description = '''', keywords' = KArray [], image = '''',
       site_name = '''',
       twitter = \<lparr> site = Some '''', creator = Some '''' \<rparr>,
       facebook = \<lparr> admins = Some [] \<rparr>,
       type = ''article'',
       type_details = [(''section'', Leaf ''''), (''published_time'', Leaf ''''),
                       (''modified_time'', Leaf '''')],
       url = None, meta = None \<rparr>"

definition seoSchema :: "config \<Rightarrow> seoData" where
  "seoSchema cfg =
     defaults (case seo cfg of None \<Rightarrow> emptyInput | Some s \<Rightarrow> s) schemaDefaults"

text \<open>\<open>_.get(config, "seo.meta", [])\<close>.\<close>

definition configMeta :: "config \<Rightarrow> ref list" where
  "configMeta cfg =
     (case seo cfg of
        None \<Rightarrow> []
      | Some s \<Rightarrow> (case in_meta s of None \<Rightarrow> [] | Some ms \<Rightarrow> ms))"

section \<open>Descriptors\<close>

definition byName :: "string \<Rightarrow> string \<Rightarrow> obj" where
  "byName n c = [(''name'', JStr n), (''content'', JStr c)]"

definition byProperty :: "string \<Rightarrow> string \<Rightarrow> obj" where
  "byProperty p c = [(''property'', JStr p), (''content'', JStr c)]"

definition byItemProp :: "string \<Rightarrow> string \<Rightarrow> obj" where
  "byItemProp p c = [(''itemProp'', JStr p), (''content'', JStr c)]"

text \<open>\<open>xs.join(",")\<close> on an array of strings.\<close>

fun join :: "string list \<Rightarrow> string" where
  "join [] = []"
| "join [x] = x"
| "join (x # y # ys) = x @ '','' @ join (y # ys)"

text \<open>The decimal digits of a number, as a template string prints it.\<close>

fun showNat :: "nat \<Rightarrow> string" where
  "showNat n =
     (if n < 10 then [char_of (48 + n)]
      else showNat (n div 10) @ [char_of (48 + n mod 10)])"

declare showNat.simps [simp del]

text \<open>\<open>s.replace(/\/$/, "")\<close>: one slash at the end of the string is removed.\<close>

definition stripSlash :: "string \<Rightarrow> string" where
  "stripSlash s = (if s \<noteq> [] \<and> last s = CHR ''/'' then butlast s else s)"

text \<open>\<open>_.startsWith(s, p)\<close>.\<close>

definition startsWith :: "string \<Rightarrow> string \<Rightarrow> bool" where
  "startsWith s p \<longleftrightarrow> take (length p) s = p"

section \<open>generateMeta\<close>

text \<open>
  The descriptors that \<open>generateMeta\<close> pushes, block by block in the order of the source.
  Each block is the list of the objects it pushes.
\<close>

definition titleMeta :: "seoData \<Rightarrow> obj list" where
  "titleMeta seoData =
     [byName ''title'' (title seoData),
      byName ''twitter:title'' (title seoData),
      byProperty ''og:title'' (title seoData)]"

definition keywordsMeta :: "seoData \<Rightarrow> obj list" where
  "keywordsMeta seoData =
     (case keywords' seoData of
        KString s \<Rightarrow> if trim s \<noteq> [] then [byName ''keywords'' s] else []
      | KArray ks \<Rightarrow> if ks \<noteq> [] then [byName ''keywords'' (join ks)] else [])"

definition twitterMeta :: "seoData \<Rightarrow> obj list" where
  "twitterMeta seoData =
     (let twitterSite = (case site (twitter seoData) of None \<Rightarrow> '''' | Some s \<Rightarrow> s);
          twitterCreator = (case creator (twitter seoData) of None \<Rightarrow> '''' | Some s \<Rightarrow> s)
      in (if twitterSite \<noteq> [] then [byName ''twitter:site'' twitterSite] else [])
       @ (if twitterCreator \<noteq> [] then [byName ''twitter:creator'' twitterCreator] else []))"

definition facebookMeta :: "seoData \<Rightarrow> obj list" where
  "facebookMeta seoData =
     (let fbAdmins = (case admins (facebook seoData) of None \<Rightarrow> [] | Some a \<Rightarrow> a)
      in if fbAdmins \<noteq> [] then [byProperty ''fb:admins'' (join fbAdmins)] else [])"

definition descriptionMeta :: "seoData \<Rightarrow> obj list" where
  "descriptionMeta seoData =
     (let desc155words = trimTillLastSentence (description seoData) 155;
          desc200words = trimTillLastSentence (description seoData) 200
      in [byName ''description'' desc155words,
          byName ''twitter:description'' desc200words,
          byProperty ''og:description'' (description seoData)])"

definition siteNameMeta :: "seoData \<Rightarrow> obj list" where
  "siteNameMeta seoData =
     (if site_name seoData \<noteq> [] then [byProperty ''og:site_name'' (site_name seoData)]
      else [])"

definition fullImageUrl :: "seoData \<Rightarrow> options \<Rightarrow> string" where
  "fullImageUrl seoData opts =
     (if \<not> startsWith (image seoData) ''http''
      then stripSlash (baseUrl opts)
           @ (if \<not> startsWith (image seoData) ''/'' then ''/'' else '''')
           @ image seoData
      else image seoData)"

definition imageMeta :: "seoData \<Rightarrow> options \<Rightarrow> obj list" where
  "imageMeta seoData opts =
     (let hasImage = (image seoData \<noteq> [])
      in (if hasImage
          then [byItemProp ''image'' (fullImageUrl seoData opts),
                byName ''twitter:image:src'' (fullImageUrl seoData opts),
                byProperty ''og:image'' (fullImageUrl seoData opts)]
          else [])
       @ [byName ''twitter:card'' (if hasImage then ''summary_large_image'' else ''summary'')])"

definition typeMeta :: "seoData \<Rightarrow> obj list" where
  "typeMeta seoData = [byProperty ''og:type'' (type seoData)]"

text \<open>
  The loop over \<open>type_details\<close> carries the list and \<open>twitterDataCounter\<close>. \<open>pushTriple\<close> is
  the body of both branches: three pushes and the increment.
\<close>

definition pushTriple ::
  "string \<Rightarrow> string \<Rightarrow> string \<Rightarrow> obj list \<times> nat \<Rightarrow> obj list \<times> nat" where
  "pushTriple property value label st =
     (case st of (generatedSchema, twitterDataCounter) \<Rightarrow>
        (generatedSchema
           @ [byProperty property value,
              byName (''twitter:data'' @ showNat twitterDataCounter) value,
              byName (''twitter:label'' @ showNat twitterDataCounter) label],
         twitterDataCounter + 1))"

definition eachSubDetail ::
  "string \<Rightarrow> string \<Rightarrow> obj list \<times> nat \<Rightarrow> string \<times> string \<Rightarrow> obj list \<times> nat" where
  "eachSubDetail ty key st sub =
     (case sub of (subKey, subValue) \<Rightarrow>
        if subValue \<noteq> [] then pushTriple (ty @ '':'' @ key @ '':'' @ subKey) subValue subKey st
        else st)"

definition eachDetail ::
  "string \<Rightarrow> obj list \<times> nat \<Rightarrow> string \<times> detail \<Rightarrow> obj list \<times> nat" where
  "eachDetail ty st entry =
     (case entry of
        (key, Group value) \<Rightarrow> foldl (eachSubDetail ty key) st value
      | (key, Leaf value) \<Rightarrow>
          if value \<noteq> [] then pushTriple (ty @ '':'' @ key) value key st else st)"

definition typeDetailsMeta :: "seoData \<Rightarrow> obj list" where
  "typeDetailsMeta seoData =
     fst (foldl (eachDetail (type seoData)) ([], 1) (type_details seoData))"

text \<open>
  \<open>_.get\<close> returns its default only for a value that is \<open>undefined\<close>: an empty \<open>seoData.url\<close>
  is returned as it is.
\<close>

definition resolveUrl :: "seoData \<Rightarrow> options \<Rightarrow> environment \<Rightarrow> string" where
  "resolveUrl seoData opts ctx =
     (let url = (case url seoData of
                   Some u \<Rightarrow> u
                 | None \<Rightarrow> (case opt_url opts of Some u \<Rightarrow> u | None \<Rightarrow> ''''))
      in if url = [] \<and> isBrowser ctx
         then (case location_href ctx of Some u \<Rightarrow> u | None \<Rightarrow> '''')
         else url)"

definition urlMeta :: "seoData \<Rightarrow> options \<Rightarrow> environment \<Rightarrow> obj list" where
  "urlMeta seoData opts ctx =
     (let url = resolveUrl seoData opts ctx
      in if trim url \<noteq> [] then [byProperty ''og:url'' url] else [])"

text \<open>The list \<open>generatedSchema\<close> before the custom entries are applied.\<close>

definition generatedSchema :: "seoData \<Rightarrow> options \<Rightarrow> environment \<Rightarrow> obj list" where
  "generatedSchema seoData opts ctx =
     titleMeta seoData @ keywordsMeta seoData @ twitterMeta seoData @ facebookMeta seoData
     @ descriptionMeta seoData @ siteNameMeta seoData @ imageMeta seoData opts
     @ typeMeta seoData @ typeDetailsMeta seoData @ urlMeta seoData opts ctx"

text \<open>
  \<open>_.uniqWith(xs, cmp)\<close> keeps a value when \<open>cmp\<close> relates it to none of the values kept
  so far.
\<close>

definition uniqWith :: "('a \<Rightarrow> 'a \<Rightarrow> bool) \<Rightarrow> 'a list \<Rightarrow> 'a list" where
  "uniqWith cmp xs =
     foldl (\<lambda>result value. if list_ex (cmp value) result then result else result @ [value])
       [] xs"

text \<open>
  Following the specification: the first occurrence of every value of a list, in the
  order of the list; \<open>before\<close> are the values seen earlier.
\<close>

fun firstOccurrences :: "('a \<Rightarrow> 'a \<Rightarrow> bool) \<Rightarrow> 'a list \<Rightarrow> 'a list \<Rightarrow> 'a list" where
  "firstOccurrences eq before [] = []"
| "firstOccurrences eq before (x # xs) =
     (if list_ex (eq x) before then [] else [x]) @ firstOccurrences eq (before @ [x]) xs"

text \<open>
  The store and the list after the custom entries of the configuration and of the page
  have been applied, before \<open>_.uniqWith\<close>.
\<close>

definition customised ::
  "config \<Rightarrow> seoData \<Rightarrow> options \<Rightarrow> environment \<Rightarrow> store \<Rightarrow> store \<times> elem list" where
  "customised cfg seoData opts ctx h =
     (let st = (h, map Own (generatedSchema seoData opts ctx));
          st = addUpdateMeta st (configMeta cfg);
          userMeta = (case meta seoData of None \<Rightarrow> [] | Some ms \<Rightarrow> ms)
      in addUpdateMeta st userMeta)"

text \<open>\<open>_.isEqual\<close> on two objects of the list.\<close>

definition sameMeta :: "store \<Rightarrow> elem \<Rightarrow> elem \<Rightarrow> bool" where
  "sameMeta h a b = isEqual (JObj (deref h a)) (JObj (deref h b))"

text \<open>
  \<open>generateMeta\<close> for a store \<open>h\<close> of the objects that exist before the call. The result
  is the state of the object \<open>data\<close> after the call (\<open>_.defaults\<close> assigns to \<open>data\<close> and
  returns it, so \<open>seoData\<close> is that object), the store after the call and the list
  returned.
\<close>

definition generateMeta ::
  "config \<Rightarrow> environment \<Rightarrow> store \<Rightarrow> seo_input \<Rightarrow> options \<Rightarrow> seoData \<times> store \<times> elem list" where
  "generateMeta cfg ctx h data opts =
     (let seoData = defaults data (seoSchema cfg)
      in case customised cfg seoData opts ctx h of
           (h', source) \<Rightarrow> (seoData, h', uniqWith (sameMeta h') source))"

text \<open>The descriptors of the list returned, as values.\<close>

definition metaList :: "config \<Rightarrow> environment \<Rightarrow> store \<Rightarrow> seo_input \<Rightarrow> options \<Rightarrow> obj list" where
  "metaList cfg ctx h data opts =
     (case generateMeta cfg ctx h data opts of (seoData, h', result) \<Rightarrow> map (deref h') result)"

section \<open>Notions of the specification\<close>

text \<open>
  Following the specification: the non-empty leaves of \<open>type_details\<close> in iteration
  order, one level into the nested mappings. A leaf is given by its path below the type
  (\<open>key\<close>, or \<open>key:subKey\<close>), its label (\<open>key\<close>, or \<open>subKey\<close>) and its value.
\<close>

definition subLeaves :: "string \<Rightarrow> (string \<times> string) list \<Rightarrow> (string \<times> string \<times> string) list" where
  "subLeaves key subs =
     concat (map (\<lambda>(subKey, subValue).
                    if subValue \<noteq> [] then [(key @ '':'' @ subKey, subKey, subValue)] else [])
               subs)"

definition leaves :: "(string \<times> detail) list \<Rightarrow> (string \<times> string \<times> string) list" where
  "leaves details =
     concat (map (\<lambda>(key, d).
                    case d of
                      Leaf value \<Rightarrow> if value \<noteq> [] then [(key, key, value)] else []
                    | Group subs \<Rightarrow> subLeaves key subs)
               details)"

text \<open>
  Following the specification: one triple for each leaf, numbered from \<open>n\<close> in steps
  of one.
\<close>

fun triples :: "string \<Rightarrow> nat \<Rightarrow> (string \<times> string \<times> string) list \<Rightarrow> obj list" where
  "triples ty n [] = []"
| "triples ty n ((path, label, value) # ls) =
     [byProperty (ty @ '':'' @ path) value,
      byName (''twitter:data'' @ showNat n) value,
      byName (''twitter:label'' @ showNat n) label]
     @ triples ty (n + 1) ls"

text \<open>
  The keys that identify a descriptor among those an object has, and the objects with
  exactly one of them.
\<close>

definition identifyingKeys :: "obj \<Rightarrow> string list" where
  "identifyingKeys ob = filter (\<lambda>k. get ob k \<noteq> None) metaKeys"

definition hasOneKey :: "obj \<Rightarrow> bool" where
  "hasOneKey ob \<longleftrightarrow> length (identifyingKeys ob) = 1"

text \<open>Keys that \<open>_.set\<close> takes as the name of one property, whatever the object.\<close>

definition plainKey :: "string \<Rightarrow> bool" where
  "plainKey key \<longleftrightarrow> CHR ''.'' \<notin> set key \<and> CHR ''['' \<notin> set key \<and> CHR '']'' \<notin> set key"

text \<open>The shape of the descriptors that \<open>generateMeta\<close> creates.\<close>

definition descriptor :: "obj \<Rightarrow> bool" where
  "descriptor ob \<longleftrightarrow>
     (case ob of
        [(k, JStr n), (c, JStr v)] \<Rightarrow> k \<in> set metaKeys \<and> c = ''content''
      | _ \<Rightarrow> False)"

section \<open>Keys for which the model of \<open>_.set\<close> is exact\<close>

text \<open>
  Names that recent versions of lodash refuse to assign.
\<close>

definition reservedKeys :: "string list" where
  "reservedKeys = [''__proto__'', ''constructor'', ''prototype'']"

text \<open>
  A key that \<open>_.set\<close> takes as the name of one property of any object and assigns in every
  version of lodash. With such keys \<open>_.set\<close> is a plain assignment of one property: it
  writes into no nested object, so an object that the entry and the descriptor share
  after the assignment is never changed through either of them.
\<close>

definition simpleKey :: "string \<Rightarrow> bool" where
  "simpleKey key \<longleftrightarrow> plainKey key \<and> key \<notin> set reservedKeys"







section \<open>Inputs of the examples\<close>

definition noConfig :: config where
  "noConfig = \<lparr> seo = None \<rparr>"

definition server :: environment where
  "server = \<lparr> isBrowser = False, location_href = None \<rparr>"

definition siteOptions :: options where
  "siteOptions = \<lparr> baseUrl = ''http://x.com/'', opt_url = Some ''http://x.com/p'' \<rparr>"
section \<open>Properties of the string helpers\<close>

lemma trim_length: "length (trim s) \<le> length s"
  unfolding trim_def
  by (metis length_dropWhile_le length_rev order_trans)

lemma substr0_length: "0 \<le> n \<Longrightarrow> int (length (substr0 s n)) \<le> n"
  by (simp add: substr0_def)

lemma lastIndexOf_split:
  assumes "c \<notin> set zs"
  shows "lastIndexOf (ys @ c # zs) c = int (length ys)"
proof -
  have "takeWhile (\<lambda>x. x \<noteq> c) (rev zs @ c # rev ys) = rev zs"
    using assms by (subst takeWhile_append2) auto
  then show ?thesis
    by (simp add: lastIndexOf_def)
qed

lemma lastIndexOf_absent: "lastIndexOf w c = - 1 \<longleftrightarrow> c \<notin> set w"
proof (cases "c \<in> set w")
  case True
  then obtain ys zs where "w = ys @ c # zs" "c \<notin> set zs"
    by (meson split_list_last)
  then show ?thesis using True lastIndexOf_split[of c zs ys] by simp
next
  case False
  then show ?thesis by (simp add: lastIndexOf_def)
qed

lemma cutAt_length: "int (length (cutAt t c)) \<le> max 0 (int (length t) - 1)"
proof -
  have "length (cutAt t c) \<le> nat (min (int (length t) - 1) (lastIndexOf t c))"
    unfolding cutAt_def substr0_def
    by (rule order_trans[OF trim_length]) simp
  then show ?thesis by linarith
qed

lemma cutAt_split:
  assumes "c \<notin> set zs"
  shows "cutAt (ys @ c # zs) c = trim ys"
  using lastIndexOf_split[OF assms, of ys]
  by (simp add: cutAt_def substr0_def)

section \<open>Properties of trimTillLastSentence\<close>

text \<open>
  Claim C4. For a positive \<open>len\<close>, let \<open>s\<close> be the tag-stripped, trimmed text and \<open>w\<close> the
  window: the first \<open>len + 1\<close> characters of \<open>s\<close> followed by a space. If \<open>w\<close> has a full
  stop, the result is the text before the last full stop of \<open>w\<close>, trimmed; otherwise, if
  \<open>w\<close> has a space, it is the text before the last space of \<open>w\<close>, trimmed; otherwise it is
  exactly the first \<open>len\<close> characters of \<open>s\<close>. The two examples of the specification hold.
\<close>

theorem trimTillLastSentence_cut:
  "0 < len \<Longrightarrow>
     (let s = getTextFromHtml str; w = take (nat (len + 1)) (s @ '' '');
          r = trimTillLastSentence str len
      in (CHR ''.'' \<in> set w \<longrightarrow>
            (\<exists>pre post. w = pre @ CHR ''.'' # post \<and> CHR ''.'' \<notin> set post \<and> r = trim pre))
       \<and> (CHR ''.'' \<notin> set w \<and> CHR '' '' \<in> set w \<longrightarrow>
            (\<exists>pre post. w = pre @ CHR '' '' # post \<and> CHR '' '' \<notin> set post \<and> r = trim pre))
       \<and> (CHR ''.'' \<notin> set w \<and> CHR '' '' \<notin> set w \<longrightarrow>
            r = take (nat len) s \<and> int (length r) = len))
   \<and> trimTillLastSentence ''Tirth Bodawala.'' 14 = ''Tirth Bodawala''
   \<and> trimTillLastSentence ''Tirth Bodawala'' 5 = ''Tirth''"
proof -
  assume pos: "0 < len"
  define s where "s = getTextFromHtml str"
  define w where "w = take (nat (len + 1)) (s @ '' '')"
  define r where "r = trimTillLastSentence str len"
  have r_nonempty: "r = (if CHR ''.'' \<notin> set w
           then if CHR '' '' \<notin> set w then substr0 (s @ '' '') len else cutAt w CHR '' ''
           else cutAt w CHR ''.'')" if "s \<noteq> []"
    using pos that
    unfolding r_def trimTillLastSentence_def Let_def s_def[symmetric] substr0_def[of _ "len + 1"]
      w_def[symmetric] lastIndexOf_absent
    by simp
  have dot: "\<exists>pre post. w = pre @ CHR ''.'' # post \<and> CHR ''.'' \<notin> set post \<and> r = trim pre"
    if d: "CHR ''.'' \<in> set w"
  proof -
    from d obtain ys zs where w: "w = ys @ CHR ''.'' # zs" and z: "CHR ''.'' \<notin> set zs"
      by (meson split_list_last)
    have "s \<noteq> []" using d by (auto simp: w_def dest: in_set_takeD)
    then have "r = trim ys" using r_nonempty d w cutAt_split[OF z] by simp
    with w z show ?thesis by blast
  qed
  have sp: "\<exists>pre post. w = pre @ CHR '' '' # post \<and> CHR '' '' \<notin> set post \<and> r = trim pre"
    if nd: "CHR ''.'' \<notin> set w" and d: "CHR '' '' \<in> set w"
  proof -
    from d obtain ys zs where w: "w = ys @ CHR '' '' # zs" and z: "CHR '' '' \<notin> set zs"
      by (meson split_list_last)
    show ?thesis
    proof (cases "s = []")
      case True
      then have "r = []" by (simp add: r_def trimTillLastSentence_def s_def[symmetric])
      moreover have "w = '' ''" using True pos by (simp add: w_def take_Cons')
      then have "ys = []" using w by (cases ys) auto
      ultimately have "r = trim ys" by (simp add: trim_def)
      with w z show ?thesis by blast
    next
      case False
      then have "r = trim ys" using r_nonempty nd d w cutAt_split[OF z] by simp
      with w z show ?thesis by blast
    qed
  qed
  have hard: "r = take (nat len) s \<and> int (length r) = len"
    if nd: "CHR ''.'' \<notin> set w" and ns: "CHR '' '' \<notin> set w"
  proof -
    have long: "nat (len + 1) \<le> length s"
    proof (rule ccontr)
      assume "\<not> nat (len + 1) \<le> length s"
      then have "w = s @ '' ''" by (simp add: w_def)
      with ns show False by simp
    qed
    then have "s \<noteq> []" using pos by auto
    then have "r = take (nat len) (s @ '' '')" using r_nonempty nd ns by (simp add: substr0_def)
    then have "r = take (nat len) s" using long by simp
    moreover have "length (take (nat len) s) = nat len" using long by simp
    ultimately show ?thesis using pos by simp
  qed
  have ex1: "trimTillLastSentence ''Tirth Bodawala.'' 14 = ''Tirth Bodawala''"
    by code_simp
  have ex2: "trimTillLastSentence ''Tirth Bodawala'' 5 = ''Tirth''"
    by code_simp
  show ?thesis
    unfolding Let_def s_def[symmetric] w_def[symmetric] r_def[symmetric]
    using dot sp hard ex1 ex2 by blast
qed

theorem trimTillLastSentence_cut_witness:
  "(0::int) < 3 \<and> trimTillLastSentence ''abcdefgh'' 3 = ''abc''"
  using trimTillLastSentence_cut[of 3 "''abcdefgh''"]
  by (simp add: Let_def getTextFromHtml_def trim_def isWhiteSpace_def)

text \<open>
  Claim C9. For every string and every \<open>len\<close> greater than 0, the result of
  \<open>trimTillLastSentence\<close> has at most \<open>len\<close> characters, whichever cut produced it.
\<close>

theorem trimTillLastSentence_length:
  "0 < len \<Longrightarrow> int (length (trimTillLastSentence str len)) \<le> len"
proof -
  assume pos: "0 < len"
  define s where "s = getTextFromHtml str"
  define t where "t = substr0 (s @ '' '') (len + 1)"
  have t: "int (length t) \<le> len + 1"
    unfolding t_def using pos by (intro substr0_length) simp
  have cut: "int (length (cutAt t c)) \<le> len" for c
    using cutAt_length[of t c] t pos by linarith
  have hard: "int (length (substr0 (s @ '' '') len)) \<le> len"
    using pos by (intro substr0_length) simp
  show ?thesis
    unfolding trimTillLastSentence_def Let_def s_def[symmetric] t_def[symmetric]
    using cut hard pos by (simp del: One_nat_def)
qed

theorem trimTillLastSentence_length_witness:
  "(0::int) < 5 \<and> int (length (trimTillLastSentence ''Tirth Bodawala'' 5)) \<le> 5"
  using trimTillLastSentence_length[of 5 "''Tirth Bodawala''"] by simp
section \<open>Properties of objects and of the working list\<close>
lemma get_assign: "get (assign ob k v) k' = (if k' = k then Some v else get ob k')"
  by (induction ob) (auto simp: get_def)

lemma lodash_set_plain: "CHR ''.'' \<notin> set key \<Longrightarrow> lodash_set ob key v = assign ob key v"
  by (simp add: lodash_set_def castPath_def isKey_def)

lemma get_map_fst: "get ob key \<noteq> None \<longleftrightarrow> key \<in> set (map fst ob)"
  by (simp add: get_def map_of_eq_None_iff)

lemma findIndex_Some:
  "findIndex P xs = Some i \<Longrightarrow> i < length xs \<and> P (xs ! i) \<and> (\<forall>j<i. \<not> P (xs ! j))"
proof (induction xs arbitrary: i)
  case Nil
  then show ?case by simp
next
  case (Cons x xs)
  show ?case
  proof (cases "P x")
    case True
    then show ?thesis using Cons.prems by auto
  next
    case False
    then obtain i' where i': "findIndex P xs = Some i'" "i = Suc i'"
      using Cons.prems by auto
    from Cons.IH[OF i'(1)] False i'(2) show ?thesis
      by (auto simp: less_Suc_eq_0_disj)
  qed
qed



lemma setField_Own:
  assumes "i < length source" "source ! i = Own ob"
  shows "\<exists>ob'. setField m i (h, source) key = (h, source[i := Own ob'])"
proof (cases "get (h m) key")
  case None
  then have "setField m i (h, source) key = (h, source[i := Own ob])"
    using assms list_update_id[of source i] by (simp add: setField_def)
  then show ?thesis by blast
next
  case (Some v)
  then have "setField m i (h, source) key = (h, source[i := Own (lodash_set ob key v)])"
    using assms by (simp add: setField_def mutate_def)
  then show ?thesis by blast
qed

lemma setField_Shared:
  assumes "source ! i = Shared r"
  shows "\<exists>ob'. setField m i (h, source) key = (h(r := ob'), source)"
proof (cases "get (h m) key")
  case None
  then have "setField m i (h, source) key = (h(r := h r), source)"
    by (simp add: setField_def)
  then show ?thesis by blast
next
  case (Some v)
  then have "setField m i (h, source) key = (h(r := lodash_set (h r) key v), source)"
    using assms by (simp add: setField_def mutate_def)
  then show ?thesis by blast
qed

lemma foldl_setField_Own:
  assumes "i < length source" "source ! i = Own ob"
  shows "\<exists>ob'. foldl (setField m i) (h, source) ks = (h, source[i := Own ob'])"
  using assms
proof (induction ks arbitrary: source ob)
  case Nil
  then have "foldl (setField m i) (h, source) [] = (h, source[i := Own ob])"
    using list_update_id[of source i] by simp
  then show ?case by blast
next
  case (Cons k ks)
  from setField_Own[OF Cons.prems, of m h k]
  obtain ob1 where s: "setField m i (h, source) k = (h, source[i := Own ob1])" by blast
  have "\<exists>ob'. foldl (setField m i) (h, source[i := Own ob1]) ks = (h, source[i := Own ob1, i := Own ob'])"
    using Cons.prems by (intro Cons.IH) simp_all
  then obtain ob2 where
    "foldl (setField m i) (h, source[i := Own ob1]) ks = (h, source[i := Own ob2])"
    by auto
  then have "foldl (setField m i) (h, source) (k # ks) = (h, source[i := Own ob2])"
    using s by simp
  then show ?case by blast
qed

lemma foldl_setField_Shared:
  assumes "source ! i = Shared r"
  shows "\<exists>ob'. foldl (setField m i) (h, source) ks = (h(r := ob'), source)"
  using assms
proof (induction ks arbitrary: h)
  case Nil
  have "foldl (setField m i) (h, source) [] = (h(r := h r), source)" by simp
  then show ?case by blast
next
  case (Cons k ks)
  from setField_Shared[OF Cons.prems, of m h k]
  obtain ob1 where s: "setField m i (h, source) k = (h(r := ob1), source)" by blast
  from Cons.IH[OF Cons.prems, of "h(r := ob1)"]
  obtain ob2 where "foldl (setField m i) (h(r := ob1), source) ks = (h(r := ob1, r := ob2), source)"
    by blast
  then have "foldl (setField m i) (h, source) (k # ks) = (h(r := ob2), source)"
    using s by simp
  then show ?case by blast
qed

lemma setField_plain:
  assumes "CHR ''.'' \<notin> set k" "i < length source"
  shows "case setField m i (h, source) k of (h1, s1) \<Rightarrow>
           length s1 = length source \<and>
           (\<forall>key. get (h1 m) key = get (h m) key) \<and>
           (\<forall>key. get (deref h1 (s1 ! i)) key =
              (if key = k \<and> get (h m) k \<noteq> None then get (h m) k
               else get (deref h (source ! i)) key))"
proof (cases "get (h m) k")
  case None
  then show ?thesis by (simp add: setField_def)
next
  case (Some v)
  show ?thesis
  proof (cases "source ! i")
    case (Own ob)
    then show ?thesis using Some assms
      by (simp add: setField_def mutate_def lodash_set_plain get_assign)
  next
    case (Shared r)
    then show ?thesis using Some assms
      by (auto simp: setField_def mutate_def lodash_set_plain get_assign)
  qed
qed

lemma foldl_setField_plain:
  assumes "\<forall>k \<in> set ks. CHR ''.'' \<notin> set k" "i < length source"
  shows "case foldl (setField m i) (h, source) ks of (h', source') \<Rightarrow>
           length source' = length source \<and>
           (\<forall>key. get (h' m) key = get (h m) key) \<and>
           (\<forall>key. get (deref h' (source' ! i)) key =
              (if key \<in> set ks \<and> get (h m) key \<noteq> None then get (h m) key
               else get (deref h (source ! i)) key))"
  using assms
proof (induction ks arbitrary: h source)
  case Nil
  then show ?case by simp
next
  case (Cons k ks)
  obtain h1 s1 where st1: "setField m i (h, source) k = (h1, s1)" by (cases "setField m i (h, source) k")
  have k: "CHR ''.'' \<notin> set k" and ks: "\<forall>k \<in> set ks. CHR ''.'' \<notin> set k"
    using Cons.prems(1) by simp_all
  from setField_plain[OF k Cons.prems(2), of m h] st1
  have len1: "length s1 = length source"
    and m1: "\<And>key. get (h1 m) key = get (h m) key"
    and t1: "\<And>key. get (deref h1 (s1 ! i)) key =
              (if key = k \<and> get (h m) k \<noteq> None then get (h m) k
               else get (deref h (source ! i)) key)"
    by simp_all
  obtain h2 s2 where st2: "foldl (setField m i) (h1, s1) ks = (h2, s2)"
    by (cases "foldl (setField m i) (h1, s1) ks")
  have "i < length s1" using len1 Cons.prems(2) by simp
  from Cons.IH[OF ks this, of h1] st2
  have len2: "length s2 = length s1"
    and m2: "\<And>key. get (h2 m) key = get (h1 m) key"
    and t2: "\<And>key. get (deref h2 (s2 ! i)) key =
              (if key \<in> set ks \<and> get (h1 m) key \<noteq> None then get (h1 m) key
               else get (deref h1 (s1 ! i)) key)"
    by simp_all
  have "foldl (setField m i) (h, source) (k # ks) = (h2, s2)"
    using st1 st2 by simp
  moreover have "length s2 = length source" using len1 len2 by simp
  moreover have "\<And>key. get (h2 m) key = get (h m) key" using m1 m2 by simp
  moreover have "\<And>key. get (deref h2 (s2 ! i)) key =
              (if key \<in> set (k # ks) \<and> get (h m) key \<noteq> None then get (h m) key
               else get (deref h (source ! i)) key)"
    using t1 t2 m1 by auto
  ultimately show ?case by simp
qed

lemma getMetaKey_priority:
  "getMetaKey entry =
     (if truthy (get entry ''name'') then Some ''name''
      else if truthy (get entry ''itemProp'') then Some ''itemProp''
      else if truthy (get entry ''property'') then Some ''property''
      else None)"
  by (simp add: getMetaKey_def metaKeys_def)















section \<open>Properties of addUpdateMeta\<close>





section \<open>Properties of \<open>_.isEqual\<close> and \<open>_.uniqWith\<close>\<close>
lemma isEqual_sym: "isEqual a b \<Longrightarrow> isEqual b a"
proof (induction a b rule: isEqual.induct)
  case (2 ps qs)
  show ?case
    unfolding isEqual.simps list_all_iff
  proof
    fix k assume k: "k \<in> set (map fst qs @ map fst ps)"
    then have k': "k \<in> set (map fst ps @ map fst qs)" by auto
    from "2.prems" k' obtain v w where vw: "map_of ps k = Some v" "map_of qs k = Some w" "isEqual v w"
      by (auto simp: list_all_iff split: option.splits dest!: bspec[where x = k])
    from "2.IH"[OF k' _ vw(1) vw(2) vw(3)] vw
    show "case (map_of qs k, map_of ps k) of (Some v, Some w) \<Rightarrow> isEqual v w | _ \<Rightarrow> False"
      by simp
  qed
qed auto
lemma isEqual_trans: "isEqual a b \<Longrightarrow> isEqual b c \<Longrightarrow> isEqual a c"
proof (induction a b arbitrary: c rule: isEqual.induct)
  case (2 ps qs)
  then obtain rs where c: "c = JObj rs" by (cases c) auto
  have *: "\<exists>v w. map_of ps k = Some v \<and> map_of qs k = Some w \<and> isEqual v w"
    if "k \<in> set (map fst ps @ map fst qs)" for k
    using "2.prems"(1) that
    by (auto simp: list_all_iff split: option.splits dest!: bspec[where x = k])
  have **: "\<exists>v w. map_of qs k = Some v \<and> map_of rs k = Some w \<and> isEqual v w"
    if "k \<in> set (map fst qs @ map fst rs)" for k
    using "2.prems"(2) that unfolding c
    by (auto simp: list_all_iff split: option.splits dest!: bspec[where x = k])
  show ?case
    unfolding c isEqual.simps list_all_iff
  proof
    fix k assume k: "k \<in> set (map fst ps @ map fst rs)"
    have kq: "k \<in> set (map fst qs)"
    proof (cases "k \<in> set (map fst ps)")
      case True
      with *[of k] have "map_of qs k \<noteq> None" by auto
      then show ?thesis by (simp add: map_of_eq_None_iff)
    next
      case False
      with k **[of k] have "map_of qs k \<noteq> None" by auto
      then show ?thesis by (simp add: map_of_eq_None_iff)
    qed
    then have k1: "k \<in> set (map fst ps @ map fst qs)" and k2: "k \<in> set (map fst qs @ map fst rs)"
      by auto
    from *[OF k1] obtain v w where vw: "map_of ps k = Some v" "map_of qs k = Some w" "isEqual v w"
      by blast
    from **[OF k2] vw obtain u where u: "map_of rs k = Some u" "isEqual w u" by auto
    from "2.IH"[OF k1 _ vw(1) vw(2) vw(3) u(2)] vw u
    show "case (map_of ps k, map_of rs k) of (Some v, Some w) \<Rightarrow> isEqual v w | _ \<Rightarrow> False"
      by simp
  qed
next
  case (1 a b)
  then show ?case by (cases c) auto
qed auto
lemma sameMeta_trans: "sameMeta h a b \<Longrightarrow> sameMeta h b c \<Longrightarrow> sameMeta h a c"
  unfolding sameMeta_def by (rule isEqual_trans)
lemma sameMeta_sym: "sameMeta h a b \<Longrightarrow> sameMeta h b a"
  unfolding sameMeta_def by (rule isEqual_sym)
lemma uniqWith_foldl:
  assumes trans: "\<And>x y z. cmp x y \<Longrightarrow> cmp y z \<Longrightarrow> cmp x z"
    and sub: "set acc \<subseteq> set before"
    and rep: "\<forall>b \<in> set before. b \<in> set acc \<or> (\<exists>a \<in> set acc. cmp b a)"
  shows "foldl (\<lambda>result value. if list_ex (cmp value) result then result else result @ [value])
           acc xs = acc @ firstOccurrences cmp before xs"
  using sub rep
proof (induction xs arbitrary: acc before)
  case Nil
  then show ?case by simp
next
  case (Cons x xs)
  have iff: "list_ex (cmp x) acc \<longleftrightarrow> list_ex (cmp x) before"
  proof
    assume "list_ex (cmp x) acc"
    then show "list_ex (cmp x) before" using Cons.prems(1) by (auto simp: list_ex_iff)
  next
    assume "list_ex (cmp x) before"
    then obtain b where b: "b \<in> set before" "cmp x b" by (auto simp: list_ex_iff)
    with Cons.prems(2) have "b \<in> set acc \<or> (\<exists>a \<in> set acc. cmp b a)" by blast
    then show "list_ex (cmp x) acc" using b(2) trans by (auto simp: list_ex_iff)
  qed
  show ?case
  proof (cases "list_ex (cmp x) acc")
    case True
    have "set acc \<subseteq> set (before @ [x])" using Cons.prems(1) by auto
    moreover have "\<forall>b \<in> set (before @ [x]). b \<in> set acc \<or> (\<exists>a \<in> set acc. cmp b a)"
      using Cons.prems(2) True by (auto simp: list_ex_iff)
    ultimately have "foldl (\<lambda>result value. if list_ex (cmp value) result then result else result @ [value])
           acc xs = acc @ firstOccurrences cmp (before @ [x]) xs"
      by (rule Cons.IH)
    then show ?thesis using True iff by simp
  next
    case False
    have "set (acc @ [x]) \<subseteq> set (before @ [x])" using Cons.prems(1) by auto
    moreover have "\<forall>b \<in> set (before @ [x]). b \<in> set (acc @ [x]) \<or> (\<exists>a \<in> set (acc @ [x]). cmp b a)"
      using Cons.prems(2) by auto
    ultimately have "foldl (\<lambda>result value. if list_ex (cmp value) result then result else result @ [value])
           (acc @ [x]) xs = (acc @ [x]) @ firstOccurrences cmp (before @ [x]) xs"
      by (rule Cons.IH)
    then show ?thesis using False iff by simp
  qed
qed

lemma uniqWith_firstOccurrences:
  assumes "\<And>x y z. cmp x y \<Longrightarrow> cmp y z \<Longrightarrow> cmp x z"
  shows "uniqWith cmp xs = firstOccurrences cmp [] xs"
  using uniqWith_foldl[where cmp = cmp and acc = "[]" and before = "[]" and xs = xs] assms
  unfolding uniqWith_def by auto
lemma firstOccurrences_unseen:
  "y \<in> set (firstOccurrences cmp before xs) \<Longrightarrow> \<not> list_ex (cmp y) before"
proof (induction xs arbitrary: before)
  case Nil
  then show ?case by simp
next
  case (Cons x xs)
  from Cons.prems have "(\<not> list_ex (cmp x) before \<and> y = x)
      \<or> y \<in> set (firstOccurrences cmp (before @ [x]) xs)"
    by (auto split: if_splits)
  then show ?case
  proof
    assume "\<not> list_ex (cmp x) before \<and> y = x"
    then show ?thesis by simp
  next
    assume "y \<in> set (firstOccurrences cmp (before @ [x]) xs)"
    from Cons.IH[OF this] show ?thesis by (auto simp: list_ex_iff)
  qed
qed

lemma firstOccurrences_later:
  assumes "i < j" "j < length (firstOccurrences cmp before xs)"
  shows "\<not> cmp (firstOccurrences cmp before xs ! j) (firstOccurrences cmp before xs ! i)"
  using assms
proof (induction xs arbitrary: before i j)
  case Nil
  then show ?case by simp
next
  case (Cons x xs)
  let ?rest = "firstOccurrences cmp (before @ [x]) xs"
  show ?case
  proof (cases "list_ex (cmp x) before")
    case True
    then show ?thesis using Cons by simp
  next
    case False
    then have r: "firstOccurrences cmp before (x # xs) = x # ?rest" by simp
    show ?thesis
    proof (cases i)
      case 0
      then obtain j' where j': "j = Suc j'" using Cons.prems(1) by (cases j) auto
      then have "j' < length ?rest" using Cons.prems(2) r by simp
      then have "?rest ! j' \<in> set ?rest" by simp
      from firstOccurrences_unseen[OF this] have "\<not> cmp (?rest ! j') x"
        by (simp add: list_ex_iff)
      then show ?thesis using r 0 j' by simp
    next
      case (Suc i')
      then obtain j' where j': "j = Suc j'" using Cons.prems(1) by (cases j) auto
      have "i' < j'" "j' < length ?rest" using Cons.prems r Suc j' by simp_all
      from Cons.IH[OF this] show ?thesis using r Suc j' by simp
    qed
  qed
qed

lemma firstOccurrences_subset: "set (firstOccurrences cmp before xs) \<subseteq> set xs"
  by (induction xs arbitrary: before) auto

lemma firstOccurrences_covers:
  assumes "\<And>x b. x \<in> set xs \<Longrightarrow> b \<in> set before \<union> set xs \<Longrightarrow> cmp x b \<Longrightarrow> x = b"
  shows "set xs \<subseteq> set (firstOccurrences cmp before xs) \<union> set before"
  using assms
proof (induction xs arbitrary: before)
  case Nil
  then show ?case by simp
next
  case (Cons x xs)
  have "set xs \<subseteq> set (firstOccurrences cmp (before @ [x]) xs) \<union> set (before @ [x])"
    using Cons.prems by (intro Cons.IH) auto
  moreover have "list_ex (cmp x) before \<Longrightarrow> x \<in> set before"
    using Cons.prems[of x] by (auto simp: list_ex_iff)
  ultimately show ?case by auto
qed

section \<open>Properties of the generated descriptors\<close>
lemma triples_append:
  "triples ty n (ls1 @ ls2) = triples ty n ls1 @ triples ty (n + length ls1) ls2"
  by (induction ty n ls1 rule: triples.induct) auto

lemma foldl_eachSubDetail:
  "foldl (eachSubDetail ty key) (gs, n) subs =
     (gs @ triples ty n (subLeaves key subs), n + length (subLeaves key subs))"
proof (induction subs arbitrary: gs n)
  case Nil
  then show ?case by (simp add: subLeaves_def)
next
  case (Cons sub subs)
  obtain subKey subValue where sub: "sub = (subKey, subValue)" by (cases sub)
  show ?case
  proof (cases "subValue = []")
    case True
    then show ?thesis using Cons.IH[of gs n] sub
      by (simp add: eachSubDetail_def subLeaves_def)
  next
    case False
    then have "eachSubDetail ty key (gs, n) sub =
        (gs @ triples ty n [(key @ '':'' @ subKey, subKey, subValue)], n + 1)"
      using sub by (simp add: eachSubDetail_def pushTriple_def)
    moreover have "subLeaves key (sub # subs) =
        [(key @ '':'' @ subKey, subKey, subValue)] @ subLeaves key subs"
      using sub False by (simp add: subLeaves_def)
    ultimately show ?thesis
      using Cons.IH[of "gs @ triples ty n [(key @ '':'' @ subKey, subKey, subValue)]" "n + 1"]
      by (simp add: triples_append)
  qed
qed

lemma foldl_eachDetail:
  "foldl (eachDetail ty) (gs, n) details =
     (gs @ triples ty n (leaves details), n + length (leaves details))"
proof (induction details arbitrary: gs n)
  case Nil
  then show ?case by (simp add: leaves_def)
next
  case (Cons entry details)
  obtain key d where entry: "entry = (key, d)" by (cases entry)
  define ls where "ls = (case d of
                      Leaf value \<Rightarrow> if value \<noteq> [] then [(key, key, value)] else []
                    | Group subs \<Rightarrow> subLeaves key subs)"
  have step: "eachDetail ty (gs, n) entry = (gs @ triples ty n ls, n + length ls)"
  proof (cases d)
    case (Leaf v)
    then show ?thesis using entry by (simp add: eachDetail_def pushTriple_def ls_def)
  next
    case (Group subs)
    then show ?thesis using entry by (simp add: eachDetail_def ls_def foldl_eachSubDetail)
  qed
  have "leaves (entry # details) = ls @ leaves details"
    using entry by (simp add: leaves_def ls_def)
  then show ?case
    using step Cons.IH[of "gs @ triples ty n ls" "n + length ls"]
    by (simp add: triples_append add.assoc)
qed

lemma typeDetailsMeta_triples:
  "typeDetailsMeta seoData = triples (type seoData) 1 (leaves (type_details seoData))"
  by (simp add: typeDetailsMeta_def foldl_eachDetail)

lemma descriptor_by:
  "descriptor (byName k c)" "descriptor (byProperty k c)" "descriptor (byItemProp k c)"
  by (simp_all add: descriptor_def byName_def byProperty_def byItemProp_def metaKeys_def)

lemma descriptor_cases:
  assumes "descriptor ob"
  obtains k n v where "ob = [(k, JStr n), (''content'', JStr v)]" "k \<in> set metaKeys"
  using assms unfolding descriptor_def
  by (auto split: list.splits jsval.splits)

lemma descriptor_hasOneKey: "descriptor ob \<Longrightarrow> hasOneKey ob"
  by (erule descriptor_cases)
    (auto simp: hasOneKey_def identifyingKeys_def metaKeys_def get_def)
lemma descriptor_isEqual:
  assumes "descriptor a" "descriptor b" "isEqual (JObj a) (JObj b)"
  shows "a = b"
proof -
  from assms(1) obtain k n v where a: "a = [(k, JStr n), (''content'', JStr v)]" "k \<in> set metaKeys"
    by (rule descriptor_cases)
  from assms(2) obtain k' n' v' where b: "b = [(k', JStr n'), (''content'', JStr v')]" "k' \<in> set metaKeys"
    by (rule descriptor_cases)
  have ne: "k \<noteq> ''content''" "k' \<noteq> ''content''" using a(2) b(2) by (auto simp: metaKeys_def)
  from assms(3) have "k = k' \<and> n = n' \<and> v = v'"
    unfolding a(1) b(1) using ne
    by (simp split: if_splits)
  then show ?thesis unfolding a(1) b(1) by simp
qed

lemma triples_descriptor: "d \<in> set (triples ty n ls) \<Longrightarrow> descriptor d"
  by (induction ty n ls rule: triples.induct) (auto simp: descriptor_by)

lemma generatedSchema_descriptor:
  "d \<in> set (generatedSchema seoData opts ctx) \<Longrightarrow> descriptor d"
proof -
  have t: "list_all descriptor (titleMeta seoData)"
    by (simp add: titleMeta_def descriptor_by)
  have k: "list_all descriptor (keywordsMeta seoData)"
    by (simp add: keywordsMeta_def descriptor_by split: keywords_value.splits)
  have tw: "list_all descriptor (twitterMeta seoData)"
    by (simp add: twitterMeta_def Let_def descriptor_by)
  have f: "list_all descriptor (facebookMeta seoData)"
    by (simp add: facebookMeta_def Let_def descriptor_by)
  have de: "list_all descriptor (descriptionMeta seoData)"
    by (simp add: descriptionMeta_def Let_def descriptor_by)
  have s: "list_all descriptor (siteNameMeta seoData)"
    by (simp add: siteNameMeta_def descriptor_by)
  have i: "list_all descriptor (imageMeta seoData opts)"
    by (simp add: imageMeta_def Let_def descriptor_by)
  have ty: "list_all descriptor (typeMeta seoData)"
    by (simp add: typeMeta_def descriptor_by)
  have td: "list_all descriptor (typeDetailsMeta seoData)"
    unfolding typeDetailsMeta_triples list_all_iff by (blast dest: triples_descriptor)
  have u: "list_all descriptor (urlMeta seoData opts ctx)"
    by (simp add: urlMeta_def Let_def descriptor_by)
  have "list_all descriptor (generatedSchema seoData opts ctx)"
    unfolding generatedSchema_def list_all_append using t k tw f de s i ty td u by blast
  then show "d \<in> set (generatedSchema seoData opts ctx) \<Longrightarrow> descriptor d"
    by (simp add: list_all_iff)
qed

lemma generatedSchema_blocks:
  "\<exists>before after. generatedSchema seoData opts ctx = before @ imageMeta seoData opts @ after"
  "\<exists>before after. generatedSchema seoData opts ctx = before @ typeDetailsMeta seoData @ after"
  "\<exists>before. generatedSchema seoData opts ctx = before @ urlMeta seoData opts ctx"
proof -
  have "generatedSchema seoData opts ctx =
     (titleMeta seoData @ keywordsMeta seoData @ twitterMeta seoData @ facebookMeta seoData
     @ descriptionMeta seoData @ siteNameMeta seoData) @ imageMeta seoData opts
     @ (typeMeta seoData @ typeDetailsMeta seoData @ urlMeta seoData opts ctx)"
    by (simp add: generatedSchema_def)
  then show "\<exists>before after. generatedSchema seoData opts ctx = before @ imageMeta seoData opts @ after"
    by blast
  have "generatedSchema seoData opts ctx =
     (titleMeta seoData @ keywordsMeta seoData @ twitterMeta seoData @ facebookMeta seoData
     @ descriptionMeta seoData @ siteNameMeta seoData @ imageMeta seoData opts
     @ typeMeta seoData) @ typeDetailsMeta seoData @ urlMeta seoData opts ctx"
    by (simp add: generatedSchema_def)
  then show "\<exists>before after. generatedSchema seoData opts ctx = before @ typeDetailsMeta seoData @ after"
    by blast
  have "generatedSchema seoData opts ctx =
     (titleMeta seoData @ keywordsMeta seoData @ twitterMeta seoData @ facebookMeta seoData
     @ descriptionMeta seoData @ siteNameMeta seoData @ imageMeta seoData opts
     @ typeMeta seoData @ typeDetailsMeta seoData) @ urlMeta seoData opts ctx"
    by (simp add: generatedSchema_def)
  then show "\<exists>before. generatedSchema seoData opts ctx = before @ urlMeta seoData opts ctx"
    by blast
qed

lemma customised_no_custom:
  assumes "configMeta cfg = []" "meta seoData = None \<or> meta seoData = Some []"
  shows "customised cfg seoData opts ctx h = (h, map Own (generatedSchema seoData opts ctx))"
  using assms by (auto simp: customised_def addUpdateMeta_def)
lemma metaList_no_custom:
  assumes "configMeta cfg = []"
    and "meta (defaults data (seoSchema cfg)) = None \<or> meta (defaults data (seoSchema cfg)) = Some []"
  shows "set (metaList cfg ctx h data opts)
         = set (generatedSchema (defaults data (seoSchema cfg)) opts ctx)"
proof -
  define seoData where "seoData = defaults data (seoSchema cfg)"
  define gen where "gen = generatedSchema seoData opts ctx"
  have c: "customised cfg seoData opts ctx h = (h, map Own gen)"
    using assms unfolding seoData_def[symmetric] gen_def by (rule customised_no_custom)
  have m: "metaList cfg ctx h data opts = map (deref h) (uniqWith (sameMeta h) (map Own gen))"
    by (simp add: metaList_def generateMeta_def Let_def seoData_def[symmetric] c)
  have u: "uniqWith (sameMeta h) (map Own gen) = firstOccurrences (sameMeta h) [] (map Own gen)"
    by (rule uniqWith_firstOccurrences) (rule sameMeta_trans)
  have eq: "x = b" if x: "x \<in> set (map Own gen)" and s: "sameMeta h x b"
      and b: "b \<in> set (map Own gen)" for x b
  proof -
    from x b obtain dx db where d: "x = Own dx" "dx \<in> set gen" "b = Own db" "db \<in> set gen"
      by auto
    then have "descriptor dx" "descriptor db"
      unfolding gen_def by (auto dest: generatedSchema_descriptor)
    then show ?thesis using s d descriptor_isEqual[of dx db] by (simp add: sameMeta_def)
  qed
  have sub: "set (firstOccurrences (sameMeta h) [] (map Own gen)) \<subseteq> set (map Own gen)"
    by (rule firstOccurrences_subset)
  have "set (map Own gen) \<subseteq> set (firstOccurrences (sameMeta h) [] (map Own gen)) \<union> set []"
    by (rule firstOccurrences_covers) (use eq in auto)
  with sub have "set (firstOccurrences (sameMeta h) [] (map Own gen)) = set (map Own gen)" by auto
  then have "set (map (deref h) (uniqWith (sameMeta h) (map Own gen))) = deref h ` Own ` set gen"
    unfolding u by simp
  then show ?thesis unfolding m gen_def seoData_def by (simp add: image_image)
qed

lemma stripSlash_snoc: "stripSlash (b @ ''/'') = b"
  by (simp add: stripSlash_def)

lemma stripSlash_other: "s = [] \<or> last s \<noteq> CHR ''/'' \<Longrightarrow> stripSlash s = s"
  by (auto simp: stripSlash_def)

lemma imageMeta_pushed:
  assumes "image seoData \<noteq> []"
  shows "\<exists>before after. generatedSchema seoData opts ctx =
           before @ [byItemProp ''image'' (fullImageUrl seoData opts),
                     byName ''twitter:image:src'' (fullImageUrl seoData opts),
                     byProperty ''og:image'' (fullImageUrl seoData opts)] @ after"
proof -
  from generatedSchema_blocks(1)[of seoData opts ctx]
  obtain before after where "generatedSchema seoData opts ctx = before @ imageMeta seoData opts @ after"
    by blast
  then have "generatedSchema seoData opts ctx =
           before @ [byItemProp ''image'' (fullImageUrl seoData opts),
                     byName ''twitter:image:src'' (fullImageUrl seoData opts),
                     byProperty ''og:image'' (fullImageUrl seoData opts)]
             @ ([byName ''twitter:card'' ''summary_large_image''] @ after)"
    using assms by (simp add: imageMeta_def)
  then show ?thesis by blast
qed

section \<open>Properties of generateMeta\<close>

text \<open>
  Claim C6. The list that \<open>generateMeta\<close> returns consists of the first occurrences, up to
  \<open>_.isEqual\<close>, of the objects of the list built (custom entries included), in the order
  of that list; no two of its descriptors at different positions are equal by
  \<open>_.isEqual\<close>.
\<close>
theorem generateMeta_unique:
  "case generateMeta cfg ctx h data opts of (seoData, h', result) \<Rightarrow>
     result = firstOccurrences (sameMeta h') [] (snd (customised cfg seoData opts ctx h))
     \<and> (\<forall>i j. i < length result \<and> j < length result \<and> i \<noteq> j \<longrightarrow>
           \<not> isEqual (JObj (metaList cfg ctx h data opts ! i))
                      (JObj (metaList cfg ctx h data opts ! j)))"
proof -
  define seoData where "seoData = defaults data (seoSchema cfg)"
  obtain h' source where c: "customised cfg seoData opts ctx h = (h', source)"
    by (cases "customised cfg seoData opts ctx h")
  define result where "result = uniqWith (sameMeta h') source"
  have g: "generateMeta cfg ctx h data opts = (seoData, h', result)"
    by (simp add: generateMeta_def Let_def seoData_def[symmetric] c result_def)
  have m: "metaList cfg ctx h data opts = map (deref h') result"
    by (simp add: metaList_def g)
  have first: "result = firstOccurrences (sameMeta h') [] source"
    unfolding result_def by (rule uniqWith_firstOccurrences) (rule sameMeta_trans)
  have later: "\<not> sameMeta h' (result ! j) (result ! i)" if "i < j" "j < length result" for i j
    using firstOccurrences_later[of i j "sameMeta h'" "[]" source] that first by simp
  have "\<not> isEqual (JObj (map (deref h') result ! i)) (JObj (map (deref h') result ! j))"
    if ij: "i < length result" "j < length result" "i \<noteq> j" for i j
  proof (cases "i < j")
    case True
    from later[OF True ij(2)] have "\<not> sameMeta h' (result ! i) (result ! j)"
      using sameMeta_sym by blast
    then show ?thesis using ij by (simp add: sameMeta_def)
  next
    case False
    then have "j < i" using ij(3) by simp
    from later[OF this ij(1)] show ?thesis using ij by (simp add: sameMeta_def)
  qed
  then show ?thesis
    unfolding g m prod.case using first c by simp
qed

theorem generateMeta_unique_witness:
  "length (metaList noConfig server
             (h0(0 := [(''custom'', JStr ''x'')], 1 := [(''custom'', JStr ''x'')]))
             (emptyInput\<lparr> in_meta := Some [0, 1] \<rparr>) siteOptions) = 10
   \<and> \<not> isEqual
         (JObj (metaList noConfig server
             (h0(0 := [(''custom'', JStr ''x'')], 1 := [(''custom'', JStr ''x'')]))
             (emptyInput\<lparr> in_meta := Some [0, 1] \<rparr>) siteOptions ! 8))
         (JObj (metaList noConfig server
             (h0(0 := [(''custom'', JStr ''x'')], 1 := [(''custom'', JStr ''x'')]))
             (emptyInput\<lparr> in_meta := Some [0, 1] \<rparr>) siteOptions ! 9))"
proof -
  let ?h = "h0(0 := [(''custom'', JStr ''x'')], 1 := [(''custom'', JStr ''x'')])"
  let ?data = "emptyInput\<lparr> in_meta := Some [0, 1] \<rparr>"
  obtain seoData h' result where g: "generateMeta noConfig server ?h ?data siteOptions = (seoData, h', result)"
    by (cases "generateMeta noConfig server ?h ?data siteOptions")
  have len: "length (metaList noConfig server ?h ?data siteOptions) = 10"
    by code_simp
  then have "length result = 10" unfolding metaList_def g by simp
  then have "8 < length result \<and> 9 < length result \<and> (8::nat) \<noteq> 9" by simp
  moreover have "result = firstOccurrences (sameMeta h') []
            (snd (customised noConfig seoData siteOptions server ?h))
     \<and> (\<forall>i j. i < length result \<and> j < length result \<and> i \<noteq> j \<longrightarrow>
           \<not> isEqual (JObj (metaList noConfig server ?h ?data siteOptions ! i))
                      (JObj (metaList noConfig server ?h ?data siteOptions ! j)))"
    using generateMeta_unique[where cfg = noConfig and ctx = server and h = ?h
      and data = ?data and opts = siteOptions]
    unfolding g prod.case .
  ultimately have "\<not> isEqual (JObj (metaList noConfig server ?h ?data siteOptions ! 8))
                      (JObj (metaList noConfig server ?h ?data siteOptions ! 9))"
    by blast
  with len show ?thesis by blast
qed

text \<open>
  Claim C7. When the merged \<open>image\<close> is not empty, \<open>generateMeta\<close> pushes, one after the
  other, \<open>itemProp:image\<close>, \<open>twitter:image:src\<close> and \<open>og:image\<close> with the same URL: the image
  itself when it starts with \<open>http\<close>, otherwise \<open>options.baseUrl\<close> without its final slash,
  then a slash unless the image starts with one, then the image. The two examples of the
  specification hold. When no custom entry is configured, the three descriptors are in
  the list returned.
\<close>
theorem generateMeta_image:
  "(image seoData \<noteq> [] \<longrightarrow>
      (\<exists>before after. generatedSchema seoData opts ctx =
           before @ [byItemProp ''image'' (fullImageUrl seoData opts),
                     byName ''twitter:image:src'' (fullImageUrl seoData opts),
                     byProperty ''og:image'' (fullImageUrl seoData opts)] @ after))
   \<and> fullImageUrl seoData opts =
        (if startsWith (image seoData) ''http'' then image seoData
         else stripSlash (baseUrl opts)
              @ (if startsWith (image seoData) ''/'' then '''' else ''/'')
              @ image seoData)
   \<and> stripSlash (b @ ''/'') = b
   \<and> (s = [] \<or> last s \<noteq> CHR ''/'' \<longrightarrow> stripSlash s = s)
   \<and> fullImageUrl (schemaDefaults\<lparr> image := ''pic.jpg'' \<rparr>)
        (opts\<lparr> baseUrl := ''http://x.com/'' \<rparr>) = ''http://x.com/pic.jpg''
   \<and> fullImageUrl (schemaDefaults\<lparr> image := ''http://y.com/pic.jpg'' \<rparr>) opts
        = ''http://y.com/pic.jpg''
   \<and> (configMeta cfg = [] \<and>
       (meta (defaults data (seoSchema cfg)) = None \<or>
        meta (defaults data (seoSchema cfg)) = Some []) \<and>
       image (defaults data (seoSchema cfg)) \<noteq> []
      \<longrightarrow> set [byItemProp ''image'' (fullImageUrl (defaults data (seoSchema cfg)) opts),
               byName ''twitter:image:src'' (fullImageUrl (defaults data (seoSchema cfg)) opts),
               byProperty ''og:image'' (fullImageUrl (defaults data (seoSchema cfg)) opts)]
          \<subseteq> set (metaList cfg ctx h data opts))"
proof -
  have pushed: "image seoData \<noteq> [] \<longrightarrow>
      (\<exists>before after. generatedSchema seoData opts ctx =
           before @ [byItemProp ''image'' (fullImageUrl seoData opts),
                     byName ''twitter:image:src'' (fullImageUrl seoData opts),
                     byProperty ''og:image'' (fullImageUrl seoData opts)] @ after)"
    using imageMeta_pushed by blast
  have full: "fullImageUrl seoData opts =
        (if startsWith (image seoData) ''http'' then image seoData
         else stripSlash (baseUrl opts)
              @ (if startsWith (image seoData) ''/'' then '''' else ''/'')
              @ image seoData)"
    by (simp add: fullImageUrl_def)
  have other: "s = [] \<or> last s \<noteq> CHR ''/'' \<longrightarrow> stripSlash s = s"
    using stripSlash_other by blast
  have ex1: "fullImageUrl (schemaDefaults\<lparr> image := ''pic.jpg'' \<rparr>)
        (opts\<lparr> baseUrl := ''http://x.com/'' \<rparr>) = ''http://x.com/pic.jpg''"
    by (simp add: fullImageUrl_def startsWith_def stripSlash_def)
  have ex2: "fullImageUrl (schemaDefaults\<lparr> image := ''http://y.com/pic.jpg'' \<rparr>) opts
        = ''http://y.com/pic.jpg''"
    by (simp add: fullImageUrl_def startsWith_def)
  have final: "configMeta cfg = [] \<and>
       (meta (defaults data (seoSchema cfg)) = None \<or>
        meta (defaults data (seoSchema cfg)) = Some []) \<and>
       image (defaults data (seoSchema cfg)) \<noteq> []
      \<longrightarrow> set [byItemProp ''image'' (fullImageUrl (defaults data (seoSchema cfg)) opts),
               byName ''twitter:image:src'' (fullImageUrl (defaults data (seoSchema cfg)) opts),
               byProperty ''og:image'' (fullImageUrl (defaults data (seoSchema cfg)) opts)]
          \<subseteq> set (metaList cfg ctx h data opts)"
  proof (intro impI, elim conjE)
    assume c: "configMeta cfg = []"
      and m: "meta (defaults data (seoSchema cfg)) = None \<or>
        meta (defaults data (seoSchema cfg)) = Some []"
      and i: "image (defaults data (seoSchema cfg)) \<noteq> []"
    from imageMeta_pushed[OF i, of opts ctx]
    obtain before after where "generatedSchema (defaults data (seoSchema cfg)) opts ctx =
           before @ [byItemProp ''image'' (fullImageUrl (defaults data (seoSchema cfg)) opts),
                     byName ''twitter:image:src'' (fullImageUrl (defaults data (seoSchema cfg)) opts),
                     byProperty ''og:image'' (fullImageUrl (defaults data (seoSchema cfg)) opts)] @ after"
      by blast
    then have "set [byItemProp ''image'' (fullImageUrl (defaults data (seoSchema cfg)) opts),
               byName ''twitter:image:src'' (fullImageUrl (defaults data (seoSchema cfg)) opts),
               byProperty ''og:image'' (fullImageUrl (defaults data (seoSchema cfg)) opts)]
          \<subseteq> set (generatedSchema (defaults data (seoSchema cfg)) opts ctx)"
      by simp
    then show "set [byItemProp ''image'' (fullImageUrl (defaults data (seoSchema cfg)) opts),
               byName ''twitter:image:src'' (fullImageUrl (defaults data (seoSchema cfg)) opts),
               byProperty ''og:image'' (fullImageUrl (defaults data (seoSchema cfg)) opts)]
          \<subseteq> set (metaList cfg ctx h data opts)"
      unfolding metaList_no_custom[OF c m] .
  qed
  show ?thesis
    apply (rule conjI, rule pushed)
    apply (rule conjI, rule full)
    apply (rule conjI, rule stripSlash_snoc)
    apply (rule conjI, rule other)
    apply (rule conjI, rule ex1)
    apply (rule conjI, rule ex2)
    apply (rule final)
    done
qed

theorem generateMeta_image_witness:
  "byProperty ''og:image'' ''http://x.com/pic.jpg''
     \<in> set (metaList noConfig server h0 (emptyInput\<lparr> in_image := Some ''pic.jpg'' \<rparr>) siteOptions)"
proof -
  let ?data = "emptyInput\<lparr> in_image := Some ''pic.jpg'' \<rparr>"
  let ?sd = "defaults ?data (seoSchema noConfig)"
  have c: "configMeta noConfig = []" by (simp add: configMeta_def noConfig_def)
  have m: "meta ?sd = None \<or> meta ?sd = Some []"
    by (simp add: defaults_def seoSchema_def noConfig_def emptyInput_def schemaDefaults_def)
  have i: "image ?sd \<noteq> []"
    by (simp add: defaults_def emptyInput_def)
  have f: "fullImageUrl ?sd siteOptions = ''http://x.com/pic.jpg''"
    by (simp add: fullImageUrl_def defaults_def emptyInput_def startsWith_def stripSlash_def
        siteOptions_def)
  note inst = generateMeta_image[where cfg = noConfig and data = ?data and opts = siteOptions
      and ctx = server and h = h0]
  have "set [byItemProp ''image'' (fullImageUrl ?sd siteOptions),
               byName ''twitter:image:src'' (fullImageUrl ?sd siteOptions),
               byProperty ''og:image'' (fullImageUrl ?sd siteOptions)]
          \<subseteq> set (metaList noConfig server h0 ?data siteOptions)"
    using inst c m i by blast
  then show ?thesis unfolding f by simp
qed

text \<open>
  Claim C8. The descriptors pushed for \<open>type_details\<close> are one triple for each non-empty
  leaf, in iteration order and one level into nested mappings: \<open>type:key\<close> (or
  \<open>type:key:subKey\<close>) with the value, \<open>twitter:dataN\<close> with the value, \<open>twitter:labelN\<close> with
  the key (or the sub-key), \<open>N\<close> counting the triples from 1 across both levels. They are
  a block of the generated list. A top-level leaf followed by a nested one gives the
  numbers 1 and 2.
\<close>
theorem generateMeta_type_details:
  "typeDetailsMeta seoData = triples (type seoData) 1 (leaves (type_details seoData))
   \<and> (\<exists>before after.
         generatedSchema seoData opts ctx = before @ typeDetailsMeta seoData @ after)
   \<and> typeDetailsMeta
        (schemaDefaults\<lparr> type_details :=
           [(''section'', Leaf ''sports''), (''tag'', Leaf ''''),
            (''author'', Group [(''nick'', ''''), (''name'', ''Tirth'')])] \<rparr>)
       = [byProperty ''article:section'' ''sports'',
          byName ''twitter:data1'' ''sports'',
          byName ''twitter:label1'' ''section'',
          byProperty ''article:author:name'' ''Tirth'',
          byName ''twitter:data2'' ''Tirth'',
          byName ''twitter:label2'' ''name'']"
proof -
  have ex: "typeDetailsMeta
        (schemaDefaults\<lparr> type_details :=
           [(''section'', Leaf ''sports''), (''tag'', Leaf ''''),
            (''author'', Group [(''nick'', ''''), (''name'', ''Tirth'')])] \<rparr>)
       = [byProperty ''article:section'' ''sports'',
          byName ''twitter:data1'' ''sports'',
          byName ''twitter:label1'' ''section'',
          byProperty ''article:author:name'' ''Tirth'',
          byName ''twitter:data2'' ''Tirth'',
          byName ''twitter:label2'' ''name'']"
    by code_simp
  show ?thesis
    using typeDetailsMeta_triples[of seoData] generatedSchema_blocks(2)[of seoData opts ctx] ex
    by blast
qed

text \<open>
  Claim C2, as the code has it: the URL is \<open>seoData.url\<close> when that key is defined (even
  as the empty string), otherwise \<open>options.url\<close>, or the empty string when this is
  undefined too; when the result is empty and the code runs in a browser, it is the
  address of the page. \<open>seoData.url\<close> is the caller's \<open>url\<close> when defined, otherwise the
  schema's. The last descriptor pushed before the custom entries is \<open>og:url\<close> with this
  URL when the URL is not empty after trimming, and nothing is pushed otherwise. When no
  custom entry is configured and the URL is not empty after trimming, that descriptor is
  in the list returned.
\<close>
theorem generateMeta_url:
  "(url seoData = Some u \<longrightarrow>
      resolveUrl seoData opts ctx =
        (if u = [] \<and> isBrowser ctx
         then (case location_href ctx of Some l \<Rightarrow> l | None \<Rightarrow> [])
         else u))
   \<and> (url seoData = None \<longrightarrow>
      resolveUrl seoData opts ctx =
        (let u = (case opt_url opts of Some u \<Rightarrow> u | None \<Rightarrow> [])
         in if u = [] \<and> isBrowser ctx
            then (case location_href ctx of Some l \<Rightarrow> l | None \<Rightarrow> [])
            else u))
   \<and> url (defaults data (seoSchema cfg)) =
        (case in_url data of Some u \<Rightarrow> Some u | None \<Rightarrow> url (seoSchema cfg))
   \<and> urlMeta seoData opts ctx =
        (if trim (resolveUrl seoData opts ctx) \<noteq> []
         then [byProperty ''og:url'' (resolveUrl seoData opts ctx)]
         else [])
   \<and> (\<exists>before. generatedSchema seoData opts ctx = before @ urlMeta seoData opts ctx)
   \<and> (configMeta cfg = [] \<and>
       (meta (defaults data (seoSchema cfg)) = None \<or>
        meta (defaults data (seoSchema cfg)) = Some []) \<and>
       trim (resolveUrl (defaults data (seoSchema cfg)) opts ctx) \<noteq> []
      \<longrightarrow> byProperty ''og:url'' (resolveUrl (defaults data (seoSchema cfg)) opts ctx)
            \<in> set (metaList cfg ctx h data opts))"
proof -
  have some: "url seoData = Some u \<longrightarrow>
      resolveUrl seoData opts ctx =
        (if u = [] \<and> isBrowser ctx
         then (case location_href ctx of Some l \<Rightarrow> l | None \<Rightarrow> [])
         else u)"
    by (simp add: resolveUrl_def)
  have none: "url seoData = None \<longrightarrow>
      resolveUrl seoData opts ctx =
        (let u = (case opt_url opts of Some u \<Rightarrow> u | None \<Rightarrow> [])
         in if u = [] \<and> isBrowser ctx
            then (case location_href ctx of Some l \<Rightarrow> l | None \<Rightarrow> [])
            else u)"
    by (simp add: resolveUrl_def)
  have merged: "url (defaults data (seoSchema cfg)) =
        (case in_url data of Some u \<Rightarrow> Some u | None \<Rightarrow> url (seoSchema cfg))"
    by (simp add: defaults_def)
  have block: "urlMeta seoData opts ctx =
        (if trim (resolveUrl seoData opts ctx) \<noteq> []
         then [byProperty ''og:url'' (resolveUrl seoData opts ctx)]
         else [])"
    by (simp add: urlMeta_def Let_def)
  have final: "configMeta cfg = [] \<and>
       (meta (defaults data (seoSchema cfg)) = None \<or>
        meta (defaults data (seoSchema cfg)) = Some []) \<and>
       trim (resolveUrl (defaults data (seoSchema cfg)) opts ctx) \<noteq> []
      \<longrightarrow> byProperty ''og:url'' (resolveUrl (defaults data (seoSchema cfg)) opts ctx)
            \<in> set (metaList cfg ctx h data opts)"
  proof (intro impI, elim conjE)
    assume c: "configMeta cfg = []"
      and m: "meta (defaults data (seoSchema cfg)) = None \<or>
        meta (defaults data (seoSchema cfg)) = Some []"
      and t: "trim (resolveUrl (defaults data (seoSchema cfg)) opts ctx) \<noteq> []"
    from generatedSchema_blocks(3)[of "defaults data (seoSchema cfg)" opts ctx]
    obtain before where "generatedSchema (defaults data (seoSchema cfg)) opts ctx =
        before @ urlMeta (defaults data (seoSchema cfg)) opts ctx"
      by blast
    then have "byProperty ''og:url'' (resolveUrl (defaults data (seoSchema cfg)) opts ctx)
        \<in> set (generatedSchema (defaults data (seoSchema cfg)) opts ctx)"
      using t by (simp add: urlMeta_def Let_def)
    then show "byProperty ''og:url'' (resolveUrl (defaults data (seoSchema cfg)) opts ctx)
            \<in> set (metaList cfg ctx h data opts)"
      unfolding metaList_no_custom[OF c m] .
  qed
  show ?thesis
    apply (rule conjI, rule some)
    apply (rule conjI, rule none)
    apply (rule conjI, rule merged)
    apply (rule conjI, rule block)
    apply (rule conjI, rule generatedSchema_blocks(3))
    apply (rule final)
    done
qed

theorem generateMeta_url_witness:
  "byProperty ''og:url'' ''http://x.com/p''
     \<in> set (metaList noConfig server h0 emptyInput siteOptions)"
proof -
  let ?sd = "defaults emptyInput (seoSchema noConfig)"
  have c: "configMeta noConfig = []" by (simp add: configMeta_def noConfig_def)
  have m: "meta ?sd = None \<or> meta ?sd = Some []"
    by (simp add: defaults_def seoSchema_def noConfig_def emptyInput_def schemaDefaults_def)
  have u: "url ?sd = None"
    by (simp add: defaults_def seoSchema_def noConfig_def emptyInput_def schemaDefaults_def)
  note inst = generateMeta_url[where cfg = noConfig and data = emptyInput and opts = siteOptions
      and ctx = server and h = h0 and seoData = ?sd]
  have r: "resolveUrl ?sd siteOptions server = ''http://x.com/p''"
    using inst u by (simp add: siteOptions_def server_def)
  then have t: "trim (resolveUrl ?sd siteOptions server) \<noteq> []"
    by (simp add: trim_def isWhiteSpace_def)
  have "byProperty ''og:url'' (resolveUrl ?sd siteOptions server)
            \<in> set (metaList noConfig server h0 emptyInput siteOptions)"
    using inst c m t by blast
  then show ?thesis unfolding r .
qed

text \<open>
  The claim as the specification states it fails: with \<open>seoData.url\<close> the empty string,
  \<open>options.url\<close> not empty and no browser, no \<open>og:url\<close> is pushed.
\<close>
theorem generateMeta_url_counterexample:
  "in_url (emptyInput\<lparr> in_url := Some '''' \<rparr>) = Some ''''
   \<and> opt_url siteOptions = Some ''http://x.com/p''
   \<and> \<not> isBrowser server
   \<and> urlMeta (defaults (emptyInput\<lparr> in_url := Some '''' \<rparr>) (seoSchema noConfig))
         siteOptions server = []
   \<and> metaList noConfig server h0 (emptyInput\<lparr> in_url := Some '''' \<rparr>) siteOptions
       = [byName ''title'' '''', byName ''twitter:title'' '''', byProperty ''og:title'' '''',
          byName ''description'' '''', byName ''twitter:description'' '''',
          byProperty ''og:description'' '''', byName ''twitter:card'' ''summary'',
          byProperty ''og:type'' ''article'']"
  by code_simp

section \<open>Frame of generateMeta\<close>
lemma addUpdateMeta1_cases:
  obtains (push) "addUpdateMeta1 (h, source) m = (h, source @ [Shared m])"
  | (update) k i where "getMetaKey (h m) = Some k" "i < length source"
      "matchesProperty k (get (h m) k) (deref h (source ! i))"
      "addUpdateMeta1 (h, source) m = foldl (setField m i) (h, source) (map fst (h m))"
proof (cases "getMetaKey (h m)")
  case None
  then have "addUpdateMeta1 (h, source) m = (h, source @ [Shared m])"
    by (simp add: addUpdateMeta1_def)
  then show ?thesis by (rule push)
next
  case (Some k)
  show ?thesis
  proof (cases "findIndex (\<lambda>e. matchesProperty k (get (h m) k) (deref h e)) source")
    case None
    then have "addUpdateMeta1 (h, source) m = (h, source @ [Shared m])"
      using Some by (simp add: addUpdateMeta1_def)
    then show ?thesis by (rule push)
  next
    case (Some i)
    from findIndex_Some[OF Some]
    have "i < length source" "matchesProperty k (get (h m) k) (deref h (source ! i))"
      by simp_all
    moreover have "addUpdateMeta1 (h, source) m
        = foldl (setField m i) (h, source) (map fst (h m))"
      using \<open>getMetaKey (h m) = Some k\<close> Some by (simp add: addUpdateMeta1_def)
    ultimately show ?thesis using \<open>getMetaKey (h m) = Some k\<close> by (intro update)
  qed
qed

lemma addUpdateMeta1_frame:
  assumes sh: "\<forall>r. Shared r \<in> set source \<longrightarrow> r \<in> S" and m: "m \<in> S"
    and res: "addUpdateMeta1 (h, source) m = (h', source')"
  shows "(\<forall>r. Shared r \<in> set source' \<longrightarrow> r \<in> S) \<and> (\<forall>r. r \<notin> S \<longrightarrow> h' r = h r)"
proof (cases h source m rule: addUpdateMeta1_cases)
  case push
  then show ?thesis using res sh m by auto
next
  case (update k i)
  show ?thesis
  proof (cases "source ! i")
    case (Own ob)
    from foldl_setField_Own[OF update(2) Own, of m h "map fst (h m)"] update(4) res
    obtain ob' where "h' = h" "source' = source[i := Own ob']" by auto
    then show ?thesis using sh by (auto dest: set_update_subset_insert[THEN subsetD])
  next
    case (Shared r)
    from foldl_setField_Shared[OF Shared, of m h "map fst (h m)"] update(4) res
    obtain ob' where r: "h' = h(r := ob')" "source' = source" by auto
    have "Shared r \<in> set source" using Shared update(2) by (metis nth_mem)
    then have "r \<in> S" using sh by blast
    then show ?thesis using r sh by auto
  qed
qed

lemma addUpdateMeta_frame:
  assumes "\<forall>r. Shared r \<in> set source \<longrightarrow> r \<in> S" and "set ms \<subseteq> S"
    and "addUpdateMeta (h, source) ms = (h', source')"
  shows "(\<forall>r. Shared r \<in> set source' \<longrightarrow> r \<in> S) \<and> (\<forall>r. r \<notin> S \<longrightarrow> h' r = h r)"
  using assms
proof (induction ms arbitrary: h source)
  case Nil
  then show ?case by (simp add: addUpdateMeta_def)
next
  case (Cons m ms)
  obtain h1 s1 where st1: "addUpdateMeta1 (h, source) m = (h1, s1)"
    by (cases "addUpdateMeta1 (h, source) m")
  have "m \<in> S" using Cons.prems(2) by simp
  from addUpdateMeta1_frame[OF Cons.prems(1) this st1]
  have sh1: "\<forall>r. Shared r \<in> set s1 \<longrightarrow> r \<in> S" and fr1: "\<forall>r. r \<notin> S \<longrightarrow> h1 r = h r"
    by simp_all
  have "addUpdateMeta (h1, s1) ms = (h', source')"
    using Cons.prems(3) st1 by (simp add: addUpdateMeta_def)
  from Cons.IH[OF sh1 _ this] Cons.prems(2)
  have "(\<forall>r. Shared r \<in> set source' \<longrightarrow> r \<in> S) \<and> (\<forall>r. r \<notin> S \<longrightarrow> h' r = h1 r)"
    by simp
  then show ?case using fr1 by simp
qed

lemma customised_frame:
  assumes "customised cfg seoData opts ctx h = (h', source)"
    and "r \<notin> set (configMeta cfg)"
    and "r \<notin> set (case meta seoData of None \<Rightarrow> [] | Some ms \<Rightarrow> ms)"
  shows "h' r = h r"
proof -
  define S where "S = set (configMeta cfg) \<union> set (case meta seoData of None \<Rightarrow> [] | Some ms \<Rightarrow> ms)"
  obtain h1 s1 where st1:
    "addUpdateMeta (h, map Own (generatedSchema seoData opts ctx)) (configMeta cfg) = (h1, s1)"
    by (cases "addUpdateMeta (h, map Own (generatedSchema seoData opts ctx)) (configMeta cfg)")
  have st2: "addUpdateMeta (h1, s1) (case meta seoData of None \<Rightarrow> [] | Some ms \<Rightarrow> ms) = (h', source)"
    using assms(1) st1 by (simp add: customised_def Let_def)
  have "\<forall>r. Shared r \<in> set (map Own (generatedSchema seoData opts ctx)) \<longrightarrow> r \<in> S"
    by auto
  from addUpdateMeta_frame[OF this _ st1, of ] 
  have sh1: "\<forall>r. Shared r \<in> set s1 \<longrightarrow> r \<in> S" and fr1: "\<forall>r. r \<notin> S \<longrightarrow> h1 r = h r"
    by (simp_all add: S_def)
  from addUpdateMeta_frame[OF sh1 _ st2]
  have "\<forall>r. r \<notin> S \<longrightarrow> h' r = h1 r" by (simp add: S_def)
  moreover have "r \<notin> S" using assms(2,3) by (simp add: S_def)
  ultimately show ?thesis using fr1 by simp
qed

text \<open>
  Claim C3, as the code has it: \<open>generateMeta\<close> assigns to the caller's \<open>data\<close> the schema's
  value at every key that \<open>data\<close> lacks, and leaves the value of every key that \<open>data\<close>
  defines as it is. When the keys of the custom entries are simple keys, it changes no
  object that existed before the call other than the custom entries of \<open>config.seo.meta\<close>
  and of \<open>seoData.meta\<close> (which a later entry with a matching identifying value updates
  in place).
\<close>
theorem generateMeta_frame:
  "case generateMeta cfg ctx h data opts of (seoData, h', result) \<Rightarrow>
     seoData = defaults data (seoSchema cfg)
     \<and> (in_title data \<noteq> None \<longrightarrow> in_title (asInput seoData) = in_title data)
     \<and> (in_description data \<noteq> None \<longrightarrow> in_description (asInput seoData) = in_description data)
     \<and> (in_keywords data \<noteq> None \<longrightarrow> in_keywords (asInput seoData) = in_keywords data)
     \<and> (in_image data \<noteq> None \<longrightarrow> in_image (asInput seoData) = in_image data)
     \<and> (in_site_name data \<noteq> None \<longrightarrow> in_site_name (asInput seoData) = in_site_name data)
     \<and> (in_twitter data \<noteq> None \<longrightarrow> in_twitter (asInput seoData) = in_twitter data)
     \<and> (in_facebook data \<noteq> None \<longrightarrow> in_facebook (asInput seoData) = in_facebook data)
     \<and> (in_type data \<noteq> None \<longrightarrow> in_type (asInput seoData) = in_type data)
     \<and> (in_type_details data \<noteq> None \<longrightarrow>
          in_type_details (asInput seoData) = in_type_details data)
     \<and> (in_url data \<noteq> None \<longrightarrow> in_url (asInput seoData) = in_url data)
     \<and> (in_meta data \<noteq> None \<longrightarrow> in_meta (asInput seoData) = in_meta data)
     \<and> ((\<forall>r \<in> set (configMeta cfg)
                 \<union> set (case meta seoData of None \<Rightarrow> [] | Some ms \<Rightarrow> ms).
              \<forall>key \<in> set (map fst (h r)). simpleKey key)
          \<longrightarrow> (\<forall>r. r \<notin> set (configMeta cfg) \<and>
                   r \<notin> set (case meta seoData of None \<Rightarrow> [] | Some ms \<Rightarrow> ms)
                 \<longrightarrow> h' r = h r))"
proof -
  define seoData where "seoData = defaults data (seoSchema cfg)"
  obtain h' source where c: "customised cfg seoData opts ctx h = (h', source)"
    by (cases "customised cfg seoData opts ctx h")
  have g: "generateMeta cfg ctx h data opts = (seoData, h', uniqWith (sameMeta h') source)"
    by (simp add: generateMeta_def Let_def seoData_def[symmetric] c)
  have store: "(\<forall>r \<in> set (configMeta cfg)
                 \<union> set (case meta seoData of None \<Rightarrow> [] | Some ms \<Rightarrow> ms).
              \<forall>key \<in> set (map fst (h r)). simpleKey key)
          \<longrightarrow> (\<forall>r. r \<notin> set (configMeta cfg) \<and>
                   r \<notin> set (case meta seoData of None \<Rightarrow> [] | Some ms \<Rightarrow> ms)
                 \<longrightarrow> h' r = h r)"
    using customised_frame[OF c] by blast
  have fields:
    "in_title data \<noteq> None \<longrightarrow> in_title (asInput seoData) = in_title data"
    "in_description data \<noteq> None \<longrightarrow> in_description (asInput seoData) = in_description data"
    "in_keywords data \<noteq> None \<longrightarrow> in_keywords (asInput seoData) = in_keywords data"
    "in_image data \<noteq> None \<longrightarrow> in_image (asInput seoData) = in_image data"
    "in_site_name data \<noteq> None \<longrightarrow> in_site_name (asInput seoData) = in_site_name data"
    "in_twitter data \<noteq> None \<longrightarrow> in_twitter (asInput seoData) = in_twitter data"
    "in_facebook data \<noteq> None \<longrightarrow> in_facebook (asInput seoData) = in_facebook data"
    "in_type data \<noteq> None \<longrightarrow> in_type (asInput seoData) = in_type data"
    "in_type_details data \<noteq> None \<longrightarrow>
          in_type_details (asInput seoData) = in_type_details data"
    "in_url data \<noteq> None \<longrightarrow> in_url (asInput seoData) = in_url data"
    "in_meta data \<noteq> None \<longrightarrow> in_meta (asInput seoData) = in_meta data"
    unfolding seoData_def asInput_def defaults_def by auto
  show ?thesis
    unfolding g prod.case
    apply (rule conjI, rule seoData_def)
    apply (rule conjI, rule fields(1))
    apply (rule conjI, rule fields(2))
    apply (rule conjI, rule fields(3))
    apply (rule conjI, rule fields(4))
    apply (rule conjI, rule fields(5))
    apply (rule conjI, rule fields(6))
    apply (rule conjI, rule fields(7))
    apply (rule conjI, rule fields(8))
    apply (rule conjI, rule fields(9))
    apply (rule conjI, rule fields(10))
    apply (rule conjI, rule fields(11))
    apply (rule store)
    done
qed

theorem generateMeta_frame_witness:
  "in_title (asInput (fst (generateMeta noConfig server
        (h0(0 := [(''name'', JStr ''title''), (''content'', JStr ''T'')],
            1 := [(''name'', JStr ''other'')]))
        (emptyInput\<lparr> in_title := Some ''Home'', in_meta := Some [0] \<rparr>) siteOptions)))
     = Some ''Home''
   \<and> fst (snd (generateMeta noConfig server
        (h0(0 := [(''name'', JStr ''title''), (''content'', JStr ''T'')],
            1 := [(''name'', JStr ''other'')]))
        (emptyInput\<lparr> in_title := Some ''Home'', in_meta := Some [0] \<rparr>) siteOptions)) 1
     = [(''name'', JStr ''other'')]"
proof -
  let ?h = "h0(0 := [(''name'', JStr ''title''), (''content'', JStr ''T'')],
            1 := [(''name'', JStr ''other'')])"
  let ?data = "emptyInput\<lparr> in_title := Some ''Home'', in_meta := Some [0] \<rparr>"
  obtain seoData h' result where
    g: "generateMeta noConfig server ?h ?data siteOptions = (seoData, h', result)"
    by (cases "generateMeta noConfig server ?h ?data siteOptions")
  note inst = generateMeta_frame[where cfg = noConfig and ctx = server and h = ?h
      and data = ?data and opts = siteOptions, unfolded g prod.case]
  have sd: "seoData = defaults ?data (seoSchema noConfig)"
    using inst by (rule conjunct1)
  have d: "in_title ?data \<noteq> None" by simp
  have "in_title (asInput seoData) = in_title ?data"
    using inst d by blast
  then have t: "in_title (asInput seoData) = Some ''Home''" by simp
  have "1 \<notin> set (configMeta noConfig)" by (simp add: configMeta_def noConfig_def)
  moreover have "1 \<notin> set (case meta seoData of None \<Rightarrow> [] | Some ms \<Rightarrow> ms)"
    unfolding sd by (simp add: defaults_def)
  moreover have "\<forall>r \<in> set (configMeta noConfig)
                 \<union> set (case meta seoData of None \<Rightarrow> [] | Some ms \<Rightarrow> ms).
              \<forall>key \<in> set (map fst (?h r)). simpleKey key"
    unfolding sd
    by (simp add: defaults_def configMeta_def noConfig_def simpleKey_def plainKey_def
        reservedKeys_def)
  ultimately have "h' 1 = ?h 1" using inst by blast
  then have "h' 1 = [(''name'', JStr ''other'')]" by simp
  with t show ?thesis unfolding g by simp
qed

text \<open>
  The claim as the specification states it fails: after a call with an empty \<open>data\<close>
  object, \<open>data\<close> has the keys of the schema; and a custom entry of the configuration is
  changed by a page-level entry of the same name.
\<close>
theorem generateMeta_frame_counterexample:
  "in_title emptyInput = None
   \<and> in_title (asInput (fst (generateMeta noConfig server h0 emptyInput siteOptions))) = Some ''''
   \<and> in_type emptyInput = None
   \<and> in_type (asInput (fst (generateMeta noConfig server h0 emptyInput siteOptions)))
       = Some ''article''
   \<and> asInput (fst (generateMeta noConfig server h0 emptyInput siteOptions)) \<noteq> emptyInput
   \<and> configMeta \<lparr> seo = Some (emptyInput\<lparr> in_meta := Some [0] \<rparr>) \<rparr> = [0]
   \<and> fst (snd (generateMeta \<lparr> seo = Some (emptyInput\<lparr> in_meta := Some [0] \<rparr>) \<rparr> server
         (h0(0 := [(''name'', JStr ''x''), (''content'', JStr ''1'')],
             1 := [(''name'', JStr ''x''), (''content'', JStr ''2'')]))
         (emptyInput\<lparr> in_meta := Some [1] \<rparr>) siteOptions)) 0
       = [(''name'', JStr ''x''), (''content'', JStr ''2'')]"
proof -
  have sd: "fst (generateMeta noConfig server h0 emptyInput siteOptions)
      = defaults emptyInput (seoSchema noConfig)"
    by (simp add: generateMeta_def Let_def split: prod.splits)
  have t: "in_title (asInput (defaults emptyInput (seoSchema noConfig))) = Some ''''"
    and ty: "in_type (asInput (defaults emptyInput (seoSchema noConfig))) = Some ''article''"
    by (simp_all add: asInput_def defaults_def seoSchema_def noConfig_def emptyInput_def
        schemaDefaults_def)
  have e: "in_title emptyInput = None" "in_type emptyInput = None"
    by (simp_all add: emptyInput_def)
  have ne: "asInput (defaults emptyInput (seoSchema noConfig)) \<noteq> emptyInput"
    using t e(1) by auto
  have cm: "configMeta \<lparr> seo = Some (emptyInput\<lparr> in_meta := Some [0] \<rparr>) \<rparr> = [0]"
    by (simp add: configMeta_def)
  have shared: "fst (snd (generateMeta \<lparr> seo = Some (emptyInput\<lparr> in_meta := Some [0] \<rparr>) \<rparr> server
         (h0(0 := [(''name'', JStr ''x''), (''content'', JStr ''1'')],
             1 := [(''name'', JStr ''x''), (''content'', JStr ''2'')]))
         (emptyInput\<lparr> in_meta := Some [1] \<rparr>) siteOptions)) 0
       = [(''name'', JStr ''x''), (''content'', JStr ''2'')]"
    by code_simp
  show ?thesis using t ty e ne cm shared unfolding sd by blast
qed

section \<open>Identifying keys of the descriptors returned\<close>
lemma truthy_present: "truthy x \<Longrightarrow> x \<noteq> None"
  by (cases x) auto

lemma getMetaKey_Some:
  "getMetaKey ob = Some k \<Longrightarrow> k \<in> set metaKeys \<and> get ob k \<noteq> None"
  unfolding getMetaKey_priority
  by (auto simp: metaKeys_def split: if_splits dest: truthy_present)

lemma matchesProperty_present: "matchesProperty k v ob \<Longrightarrow> get ob k \<noteq> None"
  by (auto simp: matchesProperty_def split: option.splits)

lemma hasOneKey_only:
  assumes "hasOneKey ob" "k \<in> set metaKeys" "get ob k \<noteq> None"
    "k' \<in> set metaKeys" "get ob k' \<noteq> None"
  shows "k' = k"
  using assms unfolding hasOneKey_def identifyingKeys_def metaKeys_def
  by (auto split: if_splits)

lemma hasOneKey_merge:
  assumes m: "hasOneKey entry" and t: "hasOneKey target"
    and k: "k \<in> set metaKeys" "get entry k \<noteq> None" "get target k \<noteq> None"
    and x: "\<And>key. get ob key \<noteq> None \<longleftrightarrow> get entry key \<noteq> None \<or> get target key \<noteq> None"
  shows "hasOneKey ob"
proof -
  have "get ob key \<noteq> None \<longleftrightarrow> get target key \<noteq> None" if "key \<in> set metaKeys" for key
    using x[of key] hasOneKey_only[OF m k(1,2) that] k(3) by blast
  then have "identifyingKeys ob = identifyingKeys target"
    unfolding identifyingKeys_def by (intro filter_cong) auto
  then show ?thesis using t by (simp add: hasOneKey_def)
qed

lemma addUpdateMeta1_hasOneKey:
  assumes sh: "\<forall>r. Shared r \<in> set source \<longrightarrow> r \<in> S"
    and wf: "\<forall>r \<in> S. hasOneKey (h r) \<and> (\<forall>key \<in> set (map fst (h r)). plainKey key)"
    and inv: "\<forall>e \<in> set source. hasOneKey (deref h e)"
    and m: "m \<in> S"
    and res: "addUpdateMeta1 (h, source) m = (h', source')"
  shows "(\<forall>r. Shared r \<in> set source' \<longrightarrow> r \<in> S)
       \<and> (\<forall>r \<in> S. hasOneKey (h' r) \<and> (\<forall>key \<in> set (map fst (h' r)). plainKey key))
       \<and> (\<forall>e \<in> set source'. hasOneKey (deref h' e))"
proof (cases h source m rule: addUpdateMeta1_cases)
  case push
  then have "h' = h" "source' = source @ [Shared m]" using res by simp_all
  then show ?thesis using sh wf inv m by auto
next
  case (update k i)
  define target where "target = deref h (source ! i)"
  have ti: "source ! i \<in> set source" using update(2) by simp
  have t1: "hasOneKey target" unfolding target_def using inv ti by blast
  have m1: "hasOneKey (h m)" and mp: "\<forall>key \<in> set (map fst (h m)). plainKey key"
    using wf m by blast+
  have dots: "\<forall>key \<in> set (map fst (h m)). CHR ''.'' \<notin> set key"
    using mp by (simp add: plainKey_def)
  have k: "k \<in> set metaKeys" "get (h m) k \<noteq> None" "get target k \<noteq> None"
    using getMetaKey_Some[OF update(1)] matchesProperty_present[OF update(3)]
    by (simp_all add: target_def)
  have f: "foldl (setField m i) (h, source) (map fst (h m)) = (h', source')"
    using update(4) res by simp
  note plain = foldl_setField_plain[OF dots update(2), of m h, unfolded f prod.case]
  have g: "get (deref h' (source' ! i)) key =
              (if key \<in> set (map fst (h m)) \<and> get (h m) key \<noteq> None then get (h m) key
               else get target key)" for key
    unfolding target_def using plain by blast
  have present: "get (deref h' (source' ! i)) key \<noteq> None
      \<longleftrightarrow> get (h m) key \<noteq> None \<or> get target key \<noteq> None" for key
    using g[of key] get_map_fst[of "h m" key] by auto
  have one: "hasOneKey (deref h' (source' ! i))"
    using m1 t1 k present by (rule hasOneKey_merge)
  show ?thesis
  proof (cases "source ! i")
    case (Own ob)
    from foldl_setField_Own[OF update(2) Own, of m h "map fst (h m)"] update(4) res
    obtain ob' where r: "h' = h" "source' = source[i := Own ob']" by auto
    then have "deref h' (source' ! i) = ob'" using update(2) by simp
    then have "hasOneKey ob'" using one by simp
    moreover have "set source' \<subseteq> insert (Own ob') (set source)"
      unfolding r(2) by (rule set_update_subset_insert)
    ultimately show ?thesis using r(1) sh wf inv by auto
  next
    case (Shared r)
    from foldl_setField_Shared[OF Shared, of m h "map fst (h m)"] update(4) res
    obtain ob' where r: "h' = h(r := ob')" "source' = source" by auto
    have rS: "r \<in> S" using sh ti Shared by auto
    have ob': "deref h' (source' ! i) = ob'" using r Shared by simp
    then have o1: "hasOneKey ob'" using one by simp
    have tp: "\<forall>key \<in> set (map fst target). plainKey key"
      using wf rS Shared by (simp add: target_def)
    have o2: "\<forall>key \<in> set (map fst ob'). plainKey key"
    proof
      fix key assume "key \<in> set (map fst ob')"
      then have "get ob' key \<noteq> None" by (simp only: get_map_fst)
      then have "get (h m) key \<noteq> None \<or> get target key \<noteq> None"
        using present[of key] ob' by simp
      then have "key \<in> set (map fst (h m)) \<or> key \<in> set (map fst target)"
        by (simp only: get_map_fst)
      then show "plainKey key" using mp tp by blast
    qed
    have "hasOneKey (deref h' e)" if "e \<in> set source" for e
    proof (cases e)
      case (Own ob)
      then show ?thesis using inv that by auto
    next
      case (Shared r')
      then show ?thesis using inv that r(1) o1 by (cases "r' = r") auto
    qed
    then show ?thesis using r sh wf o1 o2 by auto
  qed
qed

lemma addUpdateMeta_hasOneKey:
  assumes "\<forall>r. Shared r \<in> set source \<longrightarrow> r \<in> S"
    and "\<forall>r \<in> S. hasOneKey (h r) \<and> (\<forall>key \<in> set (map fst (h r)). plainKey key)"
    and "\<forall>e \<in> set source. hasOneKey (deref h e)"
    and "set ms \<subseteq> S"
    and "addUpdateMeta (h, source) ms = (h', source')"
  shows "(\<forall>r. Shared r \<in> set source' \<longrightarrow> r \<in> S)
       \<and> (\<forall>r \<in> S. hasOneKey (h' r) \<and> (\<forall>key \<in> set (map fst (h' r)). plainKey key))
       \<and> (\<forall>e \<in> set source'. hasOneKey (deref h' e))"
  using assms
proof (induction ms arbitrary: h source)
  case Nil
  then show ?case by (simp add: addUpdateMeta_def)
next
  case (Cons m ms)
  obtain h1 s1 where st1: "addUpdateMeta1 (h, source) m = (h1, s1)"
    by (cases "addUpdateMeta1 (h, source) m")
  have "m \<in> S" using Cons.prems(4) by simp
  from addUpdateMeta1_hasOneKey[OF Cons.prems(1-3) this st1]
  have a: "\<forall>r. Shared r \<in> set s1 \<longrightarrow> r \<in> S"
    and b: "\<forall>r \<in> S. hasOneKey (h1 r) \<and> (\<forall>key \<in> set (map fst (h1 r)). plainKey key)"
    and c: "\<forall>e \<in> set s1. hasOneKey (deref h1 e)"
    by blast+
  have "set ms \<subseteq> S" using Cons.prems(4) by simp
  moreover have "addUpdateMeta (h1, s1) ms = (h', source')"
    using Cons.prems(5) st1 by (simp add: addUpdateMeta_def)
  ultimately show ?case using a b c by (intro Cons.IH)
qed

text \<open>
  Claim C1, as the code has it: every descriptor that \<open>generateMeta\<close> creates has exactly
  one of the keys \<open>name\<close>, \<open>itemProp\<close>, \<open>property\<close>; and so has every descriptor of the list
  returned when every custom entry, of the configuration and of the page, has exactly
  one of these keys and no key with a full stop or a bracket.
\<close>
theorem generateMeta_one_key:
  "list_all hasOneKey (generatedSchema seoData opts ctx)
   \<and> ((\<forall>r \<in> set (configMeta cfg)
             \<union> set (case meta (defaults data (seoSchema cfg)) of None \<Rightarrow> [] | Some ms \<Rightarrow> ms).
          hasOneKey (h r) \<and> (\<forall>key \<in> set (map fst (h r)). plainKey key))
      \<longrightarrow> list_all hasOneKey (metaList cfg ctx h data opts))"
proof
  show "list_all hasOneKey (generatedSchema seoData opts ctx)"
    unfolding list_all_iff
    by (blast dest: generatedSchema_descriptor descriptor_hasOneKey)
next
  define sd where "sd = defaults data (seoSchema cfg)"
  define userMeta where "userMeta = (case meta sd of None \<Rightarrow> [] | Some ms \<Rightarrow> ms)"
  define S where "S = set (configMeta cfg) \<union> set userMeta"
  show "(\<forall>r \<in> set (configMeta cfg)
             \<union> set (case meta (defaults data (seoSchema cfg)) of None \<Rightarrow> [] | Some ms \<Rightarrow> ms).
          hasOneKey (h r) \<and> (\<forall>key \<in> set (map fst (h r)). plainKey key))
      \<longrightarrow> list_all hasOneKey (metaList cfg ctx h data opts)"
    unfolding sd_def[symmetric] userMeta_def[symmetric] S_def[symmetric]
  proof
    assume wf: "\<forall>r \<in> S. hasOneKey (h r) \<and> (\<forall>key \<in> set (map fst (h r)). plainKey key)"
    obtain h1 s1 where st1:
      "addUpdateMeta (h, map Own (generatedSchema sd opts ctx)) (configMeta cfg) = (h1, s1)"
      by (cases "addUpdateMeta (h, map Own (generatedSchema sd opts ctx)) (configMeta cfg)")
    obtain h' source where st2: "addUpdateMeta (h1, s1) userMeta = (h', source)"
      by (cases "addUpdateMeta (h1, s1) userMeta")
    have c: "customised cfg sd opts ctx h = (h', source)"
      using st1 st2 by (simp add: customised_def Let_def userMeta_def)
    have g: "generateMeta cfg ctx h data opts = (sd, h', uniqWith (sameMeta h') source)"
      by (simp add: generateMeta_def Let_def sd_def[symmetric] c)
    have sh0: "\<forall>r. Shared r \<in> set (map Own (generatedSchema sd opts ctx)) \<longrightarrow> r \<in> S"
      by auto
    have inv0: "\<forall>e \<in> set (map Own (generatedSchema sd opts ctx)). hasOneKey (deref h e)"
      by (auto dest: generatedSchema_descriptor descriptor_hasOneKey)
    have "set (configMeta cfg) \<subseteq> S" by (simp add: S_def)
    from addUpdateMeta_hasOneKey[OF sh0 wf inv0 this st1]
    have sh1: "\<forall>r. Shared r \<in> set s1 \<longrightarrow> r \<in> S"
      and wf1: "\<forall>r \<in> S. hasOneKey (h1 r) \<and> (\<forall>key \<in> set (map fst (h1 r)). plainKey key)"
      and inv1: "\<forall>e \<in> set s1. hasOneKey (deref h1 e)"
      by blast+
    have "set userMeta \<subseteq> S" by (simp add: S_def)
    from addUpdateMeta_hasOneKey[OF sh1 wf1 inv1 this st2]
    have inv2: "\<forall>e \<in> set source. hasOneKey (deref h' e)"
      by blast
    have "uniqWith (sameMeta h') source = firstOccurrences (sameMeta h') [] source"
      by (rule uniqWith_firstOccurrences) (rule sameMeta_trans)
    then have "set (uniqWith (sameMeta h') source) \<subseteq> set source"
      using firstOccurrences_subset[of "sameMeta h'" "[]" source] by simp
    then have "\<forall>e \<in> set (uniqWith (sameMeta h') source). hasOneKey (deref h' e)"
      using inv2 by blast
    then show "list_all hasOneKey (metaList cfg ctx h data opts)"
      by (simp add: metaList_def g list_all_iff)
  qed
qed

theorem generateMeta_one_key_witness:
  "list_all hasOneKey
     (metaList noConfig server
        (h0(0 := [(''name'', JStr ''title''), (''content'', JStr ''Home'')],
            1 := [(''name'', JStr ''robots''), (''content'', JStr ''all'')]))
        (emptyInput\<lparr> in_meta := Some [0, 1] \<rparr>) siteOptions)"
proof -
  let ?h = "h0(0 := [(''name'', JStr ''title''), (''content'', JStr ''Home'')],
            1 := [(''name'', JStr ''robots''), (''content'', JStr ''all'')])"
  let ?data = "emptyInput\<lparr> in_meta := Some [0, 1] \<rparr>"
  have c: "configMeta noConfig = []" by (simp add: configMeta_def noConfig_def)
  have m: "meta (defaults ?data (seoSchema noConfig)) = Some [0, 1]"
    by (simp add: defaults_def)
  have "\<forall>r \<in> set (configMeta noConfig)
             \<union> set (case meta (defaults ?data (seoSchema noConfig)) of
                      None \<Rightarrow> [] | Some ms \<Rightarrow> ms).
          hasOneKey (?h r) \<and> (\<forall>key \<in> set (map fst (?h r)). plainKey key)"
    unfolding c m
    by (simp add: hasOneKey_def identifyingKeys_def metaKeys_def get_def plainKey_def)
  with generateMeta_one_key[where cfg = noConfig and data = ?data and h = ?h
      and ctx = server and opts = siteOptions]
  show ?thesis by blast
qed

text \<open>
  The claim as the specification states it fails: a custom entry without any of the
  three keys is returned as it is, and a custom entry with two of them leaves both on the
  descriptor it updates.
\<close>
theorem generateMeta_one_key_counterexample:
  "metaList noConfig server (h0(0 := [(''custom'', JStr ''x'')]))
       (emptyInput\<lparr> in_meta := Some [0] \<rparr>) siteOptions ! 9
     = [(''custom'', JStr ''x'')]
   \<and> identifyingKeys [(''custom'', JStr ''x'')] = []
   \<and> \<not> list_all hasOneKey
         (metaList noConfig server (h0(0 := [(''custom'', JStr ''x'')]))
            (emptyInput\<lparr> in_meta := Some [0] \<rparr>) siteOptions)
   \<and> metaList noConfig server
         (h0(0 := [(''name'', JStr ''title''), (''property'', JStr ''og:title'')]))
         (emptyInput\<lparr> in_meta := Some [0] \<rparr>) siteOptions ! 0
     = [(''name'', JStr ''title''), (''content'', JStr ''''), (''property'', JStr ''og:title'')]
   \<and> identifyingKeys
         [(''name'', JStr ''title''), (''content'', JStr ''''), (''property'', JStr ''og:title'')]
     = [''name'', ''property'']"
  by code_simp

end
